theory Spec2Isabelle
  imports Main "HOL-Library.Char_ord" "HOL-Library.List_Lexorder" "HOL-Library.Multiset"
begin

section \<open>Memory, processes and the operating system\<close>

text \<open>
  An argument vector \<open>char **args\<close> is the block of pointer cells that starts where
  \<open>args\<close> points and ends where the allocation ends. A cell holds \<open>NULL\<close>, a pointer to a
  C string, or an indeterminate value that was never written (\<open>malloc\<close> does not clear
  memory). \<open>args + k\<close> is \<open>drop k\<close> of the block.
\<close>

datatype cell = Nul | Ptr string | Junk

text \<open>
  Undefined behaviour of the C program is a value: dereferencing \<open>NULL\<close>, using an
  indeterminate value, and indexing outside an array.
\<close>

datatype fault = NullDeref | WildRead | OutOfBounds

datatype endpoint = Tty | RdEnd nat | WrEnd nat

datatype wstatus = Exited nat | Signaled nat

datatype errno = ENOENT | ENOTDIR | EACCES | EAGAIN | ERANGE | EFAULT

text \<open>
  The state private to one process: working directory, environment and descriptor table
  (index = descriptor number). \<open>fork\<close> copies it.
\<close>

record proc =
  cwd :: string
  envp :: "string \<Rightarrow> string option"
  fdt :: "endpoint option list"

text \<open>
  The state shared by all processes: the number of processes created so far, the channels
  (pipes) with their unread bytes, what the terminal still delivers to a process reading it,
  and what has been written to the terminal through descriptors 1 and 2.
\<close>

record world =
  nprocs :: nat
  chans :: "string list"
  term_in :: string
  term_out :: string
  term_err :: string

text \<open>
  What the program cannot decide: the file system, the installed programs (a program maps
  its process state, argument strings and available input to its output, the input it left
  unread and its wait status), whether the n-th process creation and the k-th channel
  creation succeed, what the C library prints for a \<open>NULL\<close> argument of \<open>%s\<close>
  (\<open>None\<close>: it crashes; glibc prints \<open>(null)\<close>), and what cell \<open>i\<close> of a block fresh from
  \<open>malloc\<close> holds.
\<close>

record sys =
  chdir_os :: "string \<Rightarrow> string \<Rightarrow> errno + string"
  read_file :: "string \<Rightarrow> string \<Rightarrow> string option"
  progs :: "string \<Rightarrow> (proc \<Rightarrow> string list \<Rightarrow> string \<Rightarrow> string \<times> string \<times> wstatus) option"
  fork_ok :: "nat \<Rightarrow> bool"
  pipe_ok :: "nat \<Rightarrow> bool"
  null_fmt :: "string option"
  malloc_fill :: "nat \<Rightarrow> cell"

type_synonym hres = "(fault \<times> world) + (int \<times> cell list \<times> proc \<times> world)"

type_synonym handler = "sys \<Rightarrow> cell list \<Rightarrow> proc \<Rightarrow> world \<Rightarrow> hres"

definition cell_at :: "cell list \<Rightarrow> nat \<Rightarrow> fault + string option" where
  "cell_at a i =
     (if i < length a
      then (case a ! i of Nul \<Rightarrow> Inr None | Ptr s \<Rightarrow> Inr (Some s) | Junk \<Rightarrow> Inl WildRead)
      else Inl OutOfBounds)"

text \<open>The loop \<open>while (args[len] != NULL) len++\<close>, together with the strings it passes.\<close>

fun c_strings :: "cell list \<Rightarrow> fault + string list" where
  "c_strings [] = Inl OutOfBounds"
| "c_strings (Nul # r) = Inr []"
| "c_strings (Junk # r) = Inl WildRead"
| "c_strings (Ptr s # r) = (case c_strings r of Inl f \<Rightarrow> Inl f | Inr ss \<Rightarrow> Inr (s # ss))"

definition fd_get :: "endpoint option list \<Rightarrow> nat \<Rightarrow> endpoint option" where
  "fd_get t fd = (if fd < length t then t ! fd else None)"

text \<open>
  Output through descriptor 1 (\<open>printf\<close>, \<open>write(1, ...)\<close>) and through descriptor 2
  (\<open>fprintf(stderr, ...)\<close>, \<open>perror\<close>). A handler's output is handed over when the handler
  returns: a handler that faults dies with its output still in the stdio buffer.
\<close>

definition put_fd :: "nat \<Rightarrow> proc \<Rightarrow> string \<Rightarrow> world \<Rightarrow> world" where
  "put_fd fd p s w =
     (case fd_get (fdt p) fd of
        Some Tty \<Rightarrow> (if fd = 2 then w\<lparr>term_err := term_err w @ s\<rparr>
                     else w\<lparr>term_out := term_out w @ s\<rparr>)
      | Some (WrEnd k) \<Rightarrow> w\<lparr>chans := (chans w)[k := chans w ! k @ s]\<rparr>
      | Some (RdEnd k) \<Rightarrow> w
      | None \<Rightarrow> w)"

definition put_out :: "proc \<Rightarrow> string \<Rightarrow> world \<Rightarrow> world" where
  "put_out = put_fd 1"

definition put_err :: "proc \<Rightarrow> string \<Rightarrow> world \<Rightarrow> world" where
  "put_err = put_fd 2"

text \<open>What descriptor 0 can deliver, and the state after a reader left \<open>rest\<close> unread.\<close>

definition stdin_avail :: "proc \<Rightarrow> world \<Rightarrow> string" where
  "stdin_avail p w =
     (case fd_get (fdt p) 0 of
        Some Tty \<Rightarrow> term_in w
      | Some (RdEnd k) \<Rightarrow> (if k < length (chans w) then chans w ! k else [])
      | Some (WrEnd k) \<Rightarrow> []
      | None \<Rightarrow> [])"

definition stdin_left :: "proc \<Rightarrow> string \<Rightarrow> world \<Rightarrow> world" where
  "stdin_left p rest w =
     (case fd_get (fdt p) 0 of
        Some Tty \<Rightarrow> w\<lparr>term_in := rest\<rparr>
      | Some (RdEnd k) \<Rightarrow> w\<lparr>chans := (chans w)[k := rest]\<rparr>
      | Some (WrEnd k) \<Rightarrow> w
      | None \<Rightarrow> w)"

fun strerror :: "errno \<Rightarrow> string" where
  "strerror ENOENT = ''No such file or directory''"
| "strerror ENOTDIR = ''Not a directory''"
| "strerror EACCES = ''Permission denied''"
| "strerror EAGAIN = ''Resource temporarily unavailable''"
| "strerror ERANGE = ''Numerical result out of range''"
| "strerror EFAULT = ''Bad address''"

definition perror_lsh :: "errno \<Rightarrow> string" where
  "perror_lsh e = ''lsh: '' @ strerror e @ ''\<newline>''"

section \<open>The built-in commands\<close>

definition builtin_str :: "string list" where
  "builtin_str = [''cd'', ''cat'', ''echo'', ''help'', ''exit'', ''pwd'', ''sort'']"

definition lsh_num_builtins :: nat where
  "lsh_num_builtins = length builtin_str"

subsection \<open>cd\<close>

definition lsh_cd :: handler where
  "lsh_cd sy args p w =
     (case cell_at args 0 of
        Inl f \<Rightarrow> Inl (f, w)
      | Inr None \<Rightarrow>
          Inr (1, args, p, put_err p (''lsh: expected argument to '' @ [CHR 0x22] @ ''cd''
                                        @ [CHR 0x22] @ ''\<newline>'') w)
      | Inr (Some a0) \<Rightarrow>
          (case chdir_os sy (cwd p) a0 of
             Inl e \<Rightarrow> Inr (1, args, p, put_err p (perror_lsh e) w)
           | Inr d \<Rightarrow> Inr (1, args, p\<lparr>cwd := d\<rparr>, w)))"

subsection \<open>pwd\<close>

definition LSH_PATHSIZE :: nat where
  "LSH_PATHSIZE = 1024"

definition lsh_pwd :: handler where
  "lsh_pwd sy args p w =
     (case cell_at args 0 of
        Inl f \<Rightarrow> Inl (f, w)
      | Inr None \<Rightarrow> Inr (1, args, p, put_out p ''\<newline>'' w)
      | Inr (Some a0) \<Rightarrow>
          (if length (cwd p) < LSH_PATHSIZE
           then Inr (1, args, p, put_out p (cwd p @ ''\<newline>'') w)
           else Inr (1, args, p, put_err p (perror_lsh ERANGE) w)))"

subsection \<open>echo\<close>

text \<open>
  One argument of \<open>echo\<close>: \<open>printf("%s", getenv(args[i] + 1))\<close> when it starts with a
  dollar sign, \<open>printf("%s", args[i])\<close> otherwise. \<open>getenv\<close> returns \<open>NULL\<close> for a name that
  is not in the environment, and the code passes it to \<open>printf\<close> as it is.
\<close>

definition echo_text :: "proc \<Rightarrow> string option \<Rightarrow> string \<Rightarrow> fault + string" where
  "echo_text p nf a =
     (case a of
        [] \<Rightarrow> Inr a
      | c # name \<Rightarrow>
          (if c = CHR ''$''
           then (case envp p name of
                   Some v \<Rightarrow> Inr v
                 | None \<Rightarrow> (case nf of Some t \<Rightarrow> Inr t | None \<Rightarrow> Inl NullDeref))
           else Inr a))"

function echo_loop :: "proc \<Rightarrow> string option \<Rightarrow> cell list \<Rightarrow> nat \<Rightarrow> string \<Rightarrow> fault + string" where
  "echo_loop p nf args i out =
     (case cell_at args i of
        Inl f \<Rightarrow> Inl f
      | Inr None \<Rightarrow> Inr out
      | Inr (Some a) \<Rightarrow>
          (case echo_text p nf a of
             Inl f \<Rightarrow> Inl f
           | Inr t \<Rightarrow>
               (case cell_at args (i + 1) of
                  Inl f \<Rightarrow> Inl f
                | Inr nxt \<Rightarrow>
                    echo_loop p nf args (i + 1)
                      (out @ t @ (if nxt \<noteq> None then '' '' else ''\<newline>'')))))"
  by pat_completeness auto
termination
  by (relation "measure (\<lambda>(p, nf, args, i, out). length args - i)")
     (auto simp: cell_at_def split: if_splits)

declare echo_loop.simps [simp del]

definition lsh_echo :: handler where
  "lsh_echo sy args p w =
     (case cell_at args 0 of
        Inl f \<Rightarrow> Inl (f, w)
      | Inr None \<Rightarrow> Inr (1, args, p, put_out p ''\<newline>'' w)
      | Inr (Some a0) \<Rightarrow>
          (case echo_loop p (null_fmt sy) args 1 [] of
             Inl f \<Rightarrow> Inl (f, w)
           | Inr out \<Rightarrow> Inr (1, args, p, put_out p out w)))"

subsection \<open>cat\<close>

text \<open>
  The files are copied with \<open>write(1, ...)\<close> in argument order; the first file that cannot
  be opened ends the command. The pair is what went to descriptor 1 and to descriptor 2.
\<close>

fun cat_files :: "sys \<Rightarrow> proc \<Rightarrow> string list \<Rightarrow> string \<times> string" where
  "cat_files sy p [] = ([], [])"
| "cat_files sy p (f # fs) =
     (case read_file sy (cwd p) f of
        None \<Rightarrow> ([], ''Error: '' @ f @ '': file not found\<newline>'')
      | Some c \<Rightarrow> (case cat_files sy p fs of (out, err) \<Rightarrow> (c @ out, err)))"

definition lsh_cat :: handler where
  "lsh_cat sy args p w =
     (case c_strings args of
        Inl f \<Rightarrow> Inl (f, w)
      | Inr av \<Rightarrow>
          (if length av < 2
           then Inr (1, args, p, put_err p ''Error: usage: cat filename\<newline>'' w)
           else (case cat_files sy p (tl av) of
                   (out, err) \<Rightarrow> Inr (1, args, p, put_err p err (put_out p out w)))))"

subsection \<open>help and exit\<close>

definition lsh_help :: handler where
  "lsh_help sy args p w =
     Inr (1, args, p,
          put_out p (''Shunsuke Haga's SHSH\<newline>''
                     @ ''the forked project from Stephen Brennan's LSH\<newline>''
                     @ ''Type program names and arguments, and hit enter.\<newline>''
                     @ ''The following are built in:\<newline>''
                     @ concat (map (\<lambda>b. ''  '' @ b @ ''\<newline>'') (take lsh_num_builtins builtin_str))
                     @ ''Use the man command for information on other programs.\<newline>'') w)"

definition lsh_exit :: handler where
  "lsh_exit sy args p w = Inr (0, args, p, w)"

subsection \<open>sort\<close>

definition LSH_RL_BUFSIZE :: nat where
  "LSH_RL_BUFSIZE = 1024"

text \<open>
  \<open>strcmp\<close>: the sign of the first differing byte, compared as unsigned bytes; a proper
  prefix is smaller.
\<close>

fun strcmp :: "string \<Rightarrow> string \<Rightarrow> int" where
  "strcmp [] [] = 0"
| "strcmp [] (b # t) = - 1"
| "strcmp (a # s) [] = 1"
| "strcmp (a # s) (b # t) =
     (if a = b then strcmp s t
      else if (of_char a :: nat) < of_char b then - 1 else 1)"

text \<open>
  \<open>fgets(buffer, n, stdin)\<close> stores at most \<open>n - 1\<close> bytes and stops after a newline;
  it returns \<open>NULL\<close> at end of input. The pair is the bytes stored and the input left.
\<close>

fun fgets_take :: "nat \<Rightarrow> string \<Rightarrow> string \<times> string" where
  "fgets_take n [] = ([], [])"
| "fgets_take 0 (c # s) = ([], c # s)"
| "fgets_take (Suc n) (c # s) =
     (if c = CHR 0x0A then ([c], s)
      else (case fgets_take n s of (a, r) \<Rightarrow> (c # a, r)))"

definition fgets :: "nat \<Rightarrow> string \<Rightarrow> (string \<times> string) option" where
  "fgets n inp = (if inp = [] then None else Some (fgets_take (n - 1) inp))"

text \<open>
  \<open>buffer[strcspn(buffer, "\n")] = 0; strdup(buffer)\<close>: the C string in the buffer up to
  its first newline.
\<close>

definition c_line :: "string \<Rightarrow> string" where
  "c_line chunk = takeWhile (\<lambda>c. c \<noteq> CHR 0x0A \<and> c \<noteq> CHR 0x00) chunk"

text \<open>
  The reading loop of \<open>sort\<close>: each line read is stored at \<open>args[position++]\<close>, starting
  at index 1, over whatever the block holds there and with no bound on \<open>position\<close> and no
  \<open>NULL\<close> written after the last line. Memory allocation is taken to succeed.
\<close>

function sort_read :: "nat \<Rightarrow> nat \<Rightarrow> string \<Rightarrow> cell list \<Rightarrow> (fault + cell list) \<times> string" where
  "sort_read bufsize position inp args =
     (case fgets bufsize inp of
        None \<Rightarrow> (Inr args, inp)
      | Some (chunk, rest) \<Rightarrow>
          (if position < length args
           then sort_read (if bufsize \<le> position + 1 then bufsize + LSH_RL_BUFSIZE else bufsize)
                  (position + 1) rest (args[position := Ptr (c_line chunk)])
           else (Inl OutOfBounds, rest)))"
  by pat_completeness auto
termination
proof (relation "measure (\<lambda>(bufsize, position, inp, args).
                   2 * length inp + (if bufsize < 2 then 1 else 0))", goal_cases)
  case 1
  show ?case by simp
next
  case (2 bufsize position inp args x2 chunk rest)
  have le: "length (snd (fgets_take n s)) \<le> length s" for n s
    by (induction n s rule: fgets_take.induct) (auto split: prod.splits)
  have lt: "0 < n \<Longrightarrow> s \<noteq> [] \<Longrightarrow> length (snd (fgets_take n s)) < length s" for n s
  proof (cases n)
    case 0
    assume "0 < n" with 0 show ?thesis by simp
  next
    case (Suc m)
    assume "s \<noteq> []"
    then obtain c t where s: "s = c # t" by (cases s) auto
    show ?thesis using le [of m t] by (auto simp: Suc s split: prod.splits)
  qed
  from 2 have inp: "inp \<noteq> []" and r: "rest = snd (fgets_take (bufsize - 1) inp)"
    by (auto simp: fgets_def split: if_splits)
  show ?case
  proof (cases "bufsize < 2")
    case True
    then show ?thesis using le [of "bufsize - 1" inp] r
      by (simp add: LSH_RL_BUFSIZE_def)
  next
    case False
    then have "length rest < length inp" using lt [of "bufsize - 1" inp] inp r by simp
    then show ?thesis using False by (simp add: LSH_RL_BUFSIZE_def)
  qed
qed

declare sort_read.simps [simp del]

text \<open>
  The string a cell points to. It is applied below \<open>len\<close> only, where the counting loop
  has found a pointer in every cell.
\<close>

fun str_of :: "cell \<Rightarrow> string" where
  "str_of (Ptr s) = s"
| "str_of Nul = []"
| "str_of Junk = []"

text \<open>The exchange sort: \<open>for (j = i + 1; j < len; ++j)\<close> inside \<open>for (i = 1; i < len; ++i)\<close>.\<close>

function sort_inner :: "nat \<Rightarrow> nat \<Rightarrow> nat \<Rightarrow> cell list \<Rightarrow> cell list" where
  "sort_inner i j len a =
     (if j < len
      then sort_inner i (Suc j) len
             (if 0 < strcmp (str_of (a ! i)) (str_of (a ! j))
              then a[i := a ! j, j := a ! i] else a)
      else a)"
  by pat_completeness auto
termination
  by (relation "measure (\<lambda>(i, j, len, a). len - j)") auto

declare sort_inner.simps [simp del]

function sort_outer :: "nat \<Rightarrow> nat \<Rightarrow> cell list \<Rightarrow> cell list" where
  "sort_outer i len a =
     (if i < len then sort_outer (Suc i) len (sort_inner i (Suc i) len a) else a)"
  by pat_completeness auto
termination
  by (relation "measure (\<lambda>(i, len, a). len - i)") auto

declare sort_outer.simps [simp del]

text \<open>\<open>printf("%d", n)\<close> for a count.\<close>

fun show_nat :: "nat \<Rightarrow> string" where
  "show_nat n =
     (if n < 10 then [''0123456789'' ! n]
      else show_nat (n div 10) @ [''0123456789'' ! (n mod 10)])"

function sort_print :: "nat \<Rightarrow> nat \<Rightarrow> cell list \<Rightarrow> string" where
  "sort_print i len a =
     (if i < len
      then ''['' @ show_nat i @ '']: '' @ str_of (a ! i) @ ''\<newline>'' @ sort_print (Suc i) len a
      else [])"
  by pat_completeness auto
termination
  by (relation "measure (\<lambda>(i, len, a). len - i)") auto

declare sort_print.simps [simp del]

text \<open>The part of \<open>lsh_sort\<close> after the reading loop: count, sort in place, print.\<close>

definition sort_finish :: "cell list \<Rightarrow> proc \<Rightarrow> world \<Rightarrow> hres" where
  "sort_finish args p w =
     (case c_strings args of
        Inl f \<Rightarrow> Inl (f, w)
      | Inr av \<Rightarrow>
          (let len = length av; sorted_args = sort_outer 1 len args
           in Inr (1, sorted_args, p, put_out p (sort_print 1 len sorted_args) w)))"

definition lsh_sort :: handler where
  "lsh_sort sy args p w =
     (case cell_at args 1 of
        Inl f \<Rightarrow> Inl (f, w)
      | Inr None \<Rightarrow>
          (case sort_read LSH_RL_BUFSIZE 1 (stdin_avail p w) args of
             (Inl f, rest) \<Rightarrow> Inl (f, stdin_left p rest w)
           | (Inr args1, rest) \<Rightarrow> sort_finish args1 p (stdin_left p rest w))
      | Inr (Some a1) \<Rightarrow> sort_finish args p w)"

section \<open>Descriptors and channels\<close>

text \<open>The lowest free descriptor, as \<open>pipe\<close> and \<open>open\<close> choose it.\<close>

fun free_fd :: "endpoint option list \<Rightarrow> nat" where
  "free_fd [] = 0"
| "free_fd (None # t) = 0"
| "free_fd (Some e # t) = Suc (free_fd t)"

definition set_fd :: "endpoint option list \<Rightarrow> nat \<Rightarrow> endpoint \<Rightarrow> endpoint option list" where
  "set_fd t fd e =
     (if fd < length t then t[fd := Some e]
      else t @ replicate (fd - length t) None @ [Some e])"

definition close_fd :: "endpoint option list \<Rightarrow> nat \<Rightarrow> endpoint option list" where
  "close_fd t fd = (if fd < length t then t[fd := None] else t)"

definition dup2 :: "endpoint option list \<Rightarrow> nat \<Rightarrow> nat \<Rightarrow> endpoint option list" where
  "dup2 t old new = (case fd_get t old of None \<Rightarrow> t | Some e \<Rightarrow> set_fd t new e)"

text \<open>
  \<open>pipe(fds)\<close>: a new channel and its two ends on the two lowest free descriptors, or
  failure with nothing changed.
\<close>

definition sys_pipe :: "sys \<Rightarrow> proc \<Rightarrow> world \<Rightarrow> ((nat \<times> nat) \<times> proc \<times> world) option" where
  "sys_pipe sy p w =
     (if pipe_ok sy (length (chans w))
      then (let k = length (chans w);
                r = free_fd (fdt p);
                t1 = set_fd (fdt p) r (RdEnd k);
                wr = free_fd t1;
                t2 = set_fd t1 wr (WrEnd k)
            in Some ((r, wr), p\<lparr>fdt := t2\<rparr>, w\<lparr>chans := chans w @ [[]]\<rparr>))
      else None)"

section \<open>Launching one stage\<close>

definition builtin_func :: "handler list" where
  "builtin_func = [lsh_cd, lsh_cat, lsh_echo, lsh_help, lsh_exit, lsh_pwd, lsh_sort]"

text \<open>The loop over the table in \<open>lsh_launch\<close>: the handler of the first name that matches.\<close>

function launch_builtin :: "nat \<Rightarrow> string \<Rightarrow> handler option" where
  "launch_builtin j name =
     (if j < lsh_num_builtins
      then (if strcmp name (builtin_str ! j) = 0 then Some (builtin_func ! j)
            else launch_builtin (Suc j) name)
      else None)"
  by pat_completeness auto
termination
  by (relation "measure (\<lambda>(j, name). lsh_num_builtins - j)") auto

declare launch_builtin.simps [simp del]

text \<open>
  \<open>execvp(file, argv)\<close>: on success the process becomes the program and ends with the
  program's status; on failure the call returns.
\<close>

definition execvp :: "sys \<Rightarrow> string \<Rightarrow> cell list \<Rightarrow> proc \<Rightarrow> world \<Rightarrow> errno + (wstatus \<times> world)" where
  "execvp sy file argv p w =
     (case progs sy file of
        None \<Rightarrow> Inl ENOENT
      | Some prog \<Rightarrow>
          (case c_strings argv of
             Inl f \<Rightarrow> Inl EFAULT
           | Inr av \<Rightarrow>
               (case prog p av (stdin_avail p w) of
                  (out, rest, st) \<Rightarrow> Inr (st, put_out p out (stdin_left p rest w)))))"

definition EXIT_FAILURE :: nat where
  "EXIT_FAILURE = 1"

definition EXIT_SUCCESS :: nat where
  "EXIT_SUCCESS = 0"

text \<open>The child of \<open>lsh_launch\<close>: \<open>if (execvp(...) == -1) perror("lsh"); exit(EXIT_FAILURE);\<close>\<close>

definition launch_child :: "sys \<Rightarrow> string \<Rightarrow> cell list \<Rightarrow> proc \<Rightarrow> world \<Rightarrow> wstatus \<times> world" where
  "launch_child sy name args p w =
     (case execvp sy name args p w of
        Inl e \<Rightarrow> (Exited EXIT_FAILURE, put_err p (perror_lsh e) w)
      | Inr r \<Rightarrow> r)"

text \<open>
  \<open>lsh_launch\<close>. A child, once created, runs to its terminal state before the parent goes
  on (the parent waits for it, and a wait status is terminal here: stops by job-control
  signals are outside the model), and the status waited for is dropped.
\<close>

definition lsh_launch :: handler where
  "lsh_launch sy args p w =
     (case cell_at args 0 of
        Inl f \<Rightarrow> Inl (f, w)
      | Inr None \<Rightarrow> Inl (NullDeref, w)
      | Inr (Some name) \<Rightarrow>
          (case launch_builtin 0 name of
             Some h \<Rightarrow> h sy args p w
           | None \<Rightarrow>
               (if fork_ok sy (nprocs w)
                then (case launch_child sy name args p (w\<lparr>nprocs := Suc (nprocs w)\<rparr>) of
                        (status, w1) \<Rightarrow> Inr (1, args, p, w1))
                else Inr (1, args, p, put_err p (perror_lsh EAGAIN) w))))"

section \<open>Executing a line\<close>

text \<open>
  The scan for pipes. \<open>pipe_locate\<close> is the list of the entries written so far
  (\<open>pipe_count\<close> is its length less one); the array has room for ten.
\<close>

function scan_pipes :: "nat \<Rightarrow> int list \<Rightarrow> cell list \<Rightarrow> fault + (int list \<times> cell list)" where
  "scan_pipes i pipe_locate args =
     (case cell_at args i of
        Inl f \<Rightarrow> Inl f
      | Inr None \<Rightarrow> Inr (pipe_locate, args)
      | Inr (Some s) \<Rightarrow>
          (if strcmp s ''|'' = 0
           then (if length pipe_locate < 10
                 then scan_pipes (i + 1) (pipe_locate @ [int i]) (args[i := Nul])
                 else Inl OutOfBounds)
           else scan_pipes (i + 1) pipe_locate args))"
  by pat_completeness auto
termination
  by (relation "measure (\<lambda>(i, pipe_locate, args). length args - i)")
     (auto simp: cell_at_def split: if_splits)

declare scan_pipes.simps [simp del]

text \<open>
  A process that runs into undefined behaviour is taken to die by signal 11. The macro
  \<open>WEXITSTATUS\<close> reads bits 8 to 15 of the status word, which are zero after a death by
  signal.
\<close>

definition SIGSEGV :: nat where
  "SIGSEGV = 11"

definition WEXITSTATUS :: "wstatus \<Rightarrow> int" where
  "WEXITSTATUS st = (case st of Exited n \<Rightarrow> int n | Signaled sg \<Rightarrow> 0)"

text \<open>The child of the branch without pipes: \<open>exit(lsh_launch(args))\<close>.\<close>

definition single_child :: "sys \<Rightarrow> cell list \<Rightarrow> proc \<Rightarrow> world \<Rightarrow> wstatus \<times> world" where
  "single_child sy args p w =
     (case lsh_launch sy args p w of
        Inl (f, w1) \<Rightarrow> (Signaled SIGSEGV, w1)
      | Inr (ret, a, q, w1) \<Rightarrow> (Exited (nat (ret mod 256)), w1))"

text \<open>
  The array \<open>int pfd[9][2]\<close> is not initialised: an entry is \<open>None\<close> until a successful
  \<open>pipe\<close> has filled it.
\<close>

type_synonym pfds = "(nat \<times> nat) option list"

definition pfd_at :: "pfds \<Rightarrow> nat \<Rightarrow> fault + (nat \<times> nat)" where
  "pfd_at pfd k =
     (if k < length pfd
      then (case pfd ! k of None \<Rightarrow> Inl WildRead | Some rw \<Rightarrow> Inr rw)
      else Inl OutOfBounds)"

definition do_pipe :: "sys \<Rightarrow> nat \<Rightarrow> pfds \<Rightarrow> proc \<Rightarrow> world \<Rightarrow> fault + (pfds \<times> proc \<times> world)" where
  "do_pipe sy i pfd p w =
     (if i < length pfd
      then (case sys_pipe sy p w of
              None \<Rightarrow> Inr (pfd, p, w)
            | Some (rw, p1, w1) \<Rightarrow> Inr (pfd[i := Some rw], p1, w1))
      else Inl OutOfBounds)"

text \<open>The descriptor table of the child of stage \<open>i\<close> after its \<open>dup2\<close> and \<open>close\<close> calls.\<close>

definition stage_fds :: "nat \<Rightarrow> nat \<Rightarrow> pfds \<Rightarrow> endpoint option list \<Rightarrow> fault + endpoint option list" where
  "stage_fds i pipe_count pfd t =
     (if i = 0
      then (case pfd_at pfd 0 of
              Inl f \<Rightarrow> Inl f
            | Inr (r, wr) \<Rightarrow> Inr (close_fd (close_fd (dup2 t wr 1) r) wr))
      else if i = pipe_count
      then (case pfd_at pfd (i - 1) of
              Inl f \<Rightarrow> Inl f
            | Inr (r, wr) \<Rightarrow> Inr (close_fd (close_fd (dup2 t r 0) r) wr))
      else (case pfd_at pfd (i - 1) of
              Inl f \<Rightarrow> Inl f
            | Inr (r0, wr0) \<Rightarrow>
                (case pfd_at pfd i of
                   Inl f \<Rightarrow> Inl f
                 | Inr (r1, wr1) \<Rightarrow>
                     Inr (close_fd (close_fd (close_fd (close_fd
                            (dup2 (dup2 t r0 0) wr1 1) r0) wr0) r1) wr1))))"

text \<open>
  The child of stage \<open>i\<close>: redirect, \<open>lsh_launch(args + pipe_locate[i] + 1)\<close>, \<open>exit(0)\<close>.
\<close>

definition stage_child ::
  "sys \<Rightarrow> nat \<Rightarrow> nat \<Rightarrow> pfds \<Rightarrow> int list \<Rightarrow> cell list \<Rightarrow> proc \<Rightarrow> world \<Rightarrow> wstatus \<times> world" where
  "stage_child sy i pipe_count pfd pipe_locate args p w =
     (case stage_fds i pipe_count pfd (fdt p) of
        Inl f \<Rightarrow> (Signaled SIGSEGV, w)
      | Inr t \<Rightarrow>
          (case lsh_launch sy (drop (nat (pipe_locate ! i + 1)) args) (p\<lparr>fdt := t\<rparr>) w of
             Inl (f, w1) \<Rightarrow> (Signaled SIGSEGV, w1)
           | Inr (ret, a, q, w1) \<Rightarrow> (Exited 0, w1)))"

text \<open>
  The loop that builds the pipeline. The stages run one after the other, each to its end,
  in pipeline order, so that a stage finds in its input channel all that the stage before
  it wrote; blocking on a full or empty channel, and the signal for writing to a channel
  that has lost its readers, are outside the model. \<open>kids\<close> are the
  statuses of the children not yet waited for. A failed \<open>fork\<close> returns \<open>-1\<close>, which the
  code treats as the parent's branch.
\<close>

function pipe_loop ::
  "sys \<Rightarrow> nat \<Rightarrow> int list \<Rightarrow> cell list \<Rightarrow> nat \<Rightarrow> pfds \<Rightarrow> proc \<Rightarrow> world \<Rightarrow> wstatus list
     \<Rightarrow> (fault \<times> world) + (proc \<times> world \<times> wstatus list)" where
  "pipe_loop sy pipe_count pipe_locate args i pfd p w kids =
     (if i < pipe_count + 1
      then (case (if i \<noteq> pipe_count then do_pipe sy i pfd p w else Inr (pfd, p, w)) of
              Inl f \<Rightarrow> Inl (f, w)
            | Inr (pfd1, p1, w1) \<Rightarrow>
                (case (if fork_ok sy (nprocs w1)
                       then (case stage_child sy i pipe_count pfd1 pipe_locate args p1
                                   (w1\<lparr>nprocs := Suc (nprocs w1)\<rparr>) of
                               (status, w2) \<Rightarrow> (kids @ [status], w2))
                       else (kids, w1)) of
                   (kids1, w2) \<Rightarrow>
                     (if 0 < i
                      then (case pfd_at pfd1 (i - 1) of
                              Inl f \<Rightarrow> Inl (f, w2)
                            | Inr (r, wr) \<Rightarrow>
                                pipe_loop sy pipe_count pipe_locate args (i + 1) pfd1
                                  (p1\<lparr>fdt := close_fd (close_fd (fdt p1) r) wr\<rparr>) w2 kids1)
                      else pipe_loop sy pipe_count pipe_locate args (i + 1) pfd1 p1 w2 kids1)))
      else Inr (p, w, kids))"
  by pat_completeness auto
termination
  by (relation "measure (\<lambda>(sy, pipe_count, pipe_locate, args, i, pfd, p, w, kids).
                   pipe_count + 1 - i)") auto

declare pipe_loop.simps [simp del]

text \<open>\<open>wait(&status)\<close>, \<open>n\<close> times: each call collects one child, if there is one.\<close>

fun wait_all :: "nat \<Rightarrow> wstatus list \<Rightarrow> wstatus list" where
  "wait_all 0 kids = kids"
| "wait_all (Suc n) [] = wait_all n []"
| "wait_all (Suc n) (k # kids) = wait_all n kids"

text \<open>
  \<open>lsh_execute\<close> returns the status for the loop, the caller's process state and the
  world. In the branch without pipes a failed \<open>fork\<close> leaves \<open>status\<close> unwritten
  (\<open>waitpid(-1, ...)\<close> finds no child) and the code reads it.
\<close>

definition lsh_execute ::
  "sys \<Rightarrow> cell list \<Rightarrow> proc \<Rightarrow> world \<Rightarrow> (fault \<times> world) + (int \<times> proc \<times> world)" where
  "lsh_execute sy args p w =
     (case cell_at args 0 of
        Inl f \<Rightarrow> Inl (f, w)
      | Inr None \<Rightarrow> Inr (1, p, w)
      | Inr (Some a0) \<Rightarrow>
          (case c_strings args of
             Inl f \<Rightarrow> Inl (f, w)
           | Inr av \<Rightarrow>
               (case scan_pipes 0 [- 1] args of
                  Inl f \<Rightarrow> Inl (f, w)
                | Inr (pipe_locate, args1) \<Rightarrow>
                    (let pipe_count = length pipe_locate - 1
                     in if pipe_count = 0
                        then (if fork_ok sy (nprocs w)
                              then (case single_child sy args1 p (w\<lparr>nprocs := Suc (nprocs w)\<rparr>) of
                                      (status, w1) \<Rightarrow> Inr (WEXITSTATUS status, p, w1))
                              else Inl (WildRead, w))
                        else (case pipe_loop sy pipe_count pipe_locate args1 0
                                     (replicate 9 None) p w [] of
                                Inl fw \<Rightarrow> Inl fw
                              | Inr (p1, w1, kids) \<Rightarrow>
                                  (case wait_all (pipe_count + 1) kids of
                                     kids1 \<Rightarrow> Inr (1, p1, w1)))))))"

section \<open>Reading, splitting and the interactive loop\<close>

text \<open>
  \<open>lsh_read_line\<close>: the bytes before the next newline and the input after it; \<open>None\<close> is end
  of input, on which the function calls \<open>exit(EXIT_SUCCESS)\<close>, also in the middle of a line.
\<close>

fun lsh_read_line :: "string \<Rightarrow> (string \<times> string) option" where
  "lsh_read_line [] = None"
| "lsh_read_line (c # s) =
     (if c = CHR 0x0A then Some ([], s)
      else (case lsh_read_line s of None \<Rightarrow> None | Some (l, r) \<Rightarrow> Some (c # l, r)))"

definition LSH_TOK_BUFSIZE :: nat where
  "LSH_TOK_BUFSIZE = 64"

definition LSH_TOK_DELIM :: string where
  "LSH_TOK_DELIM = [CHR '' '', CHR 0x09, CHR 0x0D, CHR 0x0A, CHR 0x07]"

text \<open>
  The tokens \<open>strtok\<close> returns one after the other: the maximal runs of bytes that are not
  delimiters, in the C string \<open>line\<close> (which ends at its first zero byte).
\<close>

fun strtok_all :: "string \<Rightarrow> string \<Rightarrow> string list" where
  "strtok_all cur [] = (if cur = [] then [] else [cur])"
| "strtok_all cur (c # s) =
     (if c = CHR 0x00 then (if cur = [] then [] else [cur])
      else if c \<in> set LSH_TOK_DELIM
      then (if cur = [] then strtok_all [] s else cur # strtok_all [] s)
      else strtok_all (cur @ [c]) s)"

text \<open>
  The storing loop of \<open>lsh_split_line\<close>: the block grows by \<open>LSH_TOK_BUFSIZE\<close> cells when
  \<open>position\<close> reaches \<open>bufsize\<close>, and \<open>NULL\<close> follows the last token.
\<close>

fun split_store :: "sys \<Rightarrow> string list \<Rightarrow> nat \<Rightarrow> nat \<Rightarrow> cell list \<Rightarrow> cell list" where
  "split_store sy [] position bufsize tokens = tokens[position := Nul]"
| "split_store sy (token # rest) position bufsize tokens =
     (if bufsize \<le> position + 1
      then split_store sy rest (position + 1) (bufsize + LSH_TOK_BUFSIZE)
             (tokens[position := Ptr token]
              @ map (malloc_fill sy) [bufsize ..< bufsize + LSH_TOK_BUFSIZE])
      else split_store sy rest (position + 1) bufsize (tokens[position := Ptr token]))"

definition lsh_split_line :: "sys \<Rightarrow> string \<Rightarrow> cell list" where
  "lsh_split_line sy line =
     split_store sy (strtok_all [] line) 0 LSH_TOK_BUFSIZE
       (map (malloc_fill sy) [0 ..< LSH_TOK_BUFSIZE])"

text \<open>
  \<open>lsh_loop\<close> on the input typed at the prompt (what is typed while a command runs is
  \<open>term_in\<close>). The result is the exit status of the shell, the input it never read and the
  world.
\<close>

function lsh_loop ::
  "sys \<Rightarrow> string \<Rightarrow> proc \<Rightarrow> world \<Rightarrow> (fault \<times> world) + (nat \<times> string \<times> world)" where
  "lsh_loop sy inp p w =
     (case lsh_read_line inp of
        None \<Rightarrow> Inr (EXIT_SUCCESS, [], put_out p ''shsh!% '' w)
      | Some (line, rest) \<Rightarrow>
          (case lsh_execute sy (lsh_split_line sy line) p (put_out p ''shsh!% '' w) of
             Inl fw \<Rightarrow> Inl fw
           | Inr (status, p1, w1) \<Rightarrow>
               (if status \<noteq> 0 then lsh_loop sy rest p1 w1
                else Inr (EXIT_SUCCESS, rest, w1))))"
  by pat_completeness auto
termination
proof (relation "measure (\<lambda>(sy, inp, p, w). length inp)", goal_cases)
  case 1
  show ?case by simp
next
  case (2 sy inp p w x2 line rest x2a status x2b p1 w1)
  have "lsh_read_line s = Some (l, r) \<Longrightarrow> length r < length s" for s l r
    by (induction s arbitrary: l) (auto split: if_splits option.splits)
  from this [of inp line rest] 2 show ?case by auto
qed

declare lsh_loop.simps [simp del]

definition main :: "sys \<Rightarrow> string \<Rightarrow> proc \<Rightarrow> world \<Rightarrow> (fault \<times> world) + (nat \<times> string \<times> world)" where
  "main sy inp p w =
     lsh_loop sy inp
       (p\<lparr>envp := (envp p)(''0'' \<mapsto> ''- SHSH'', ''SHELL'' \<mapsto> ''- SHSH'')\<rparr>) w"

section \<open>Notions used to state the properties\<close>

text \<open>
  The stages of a token sequence are its parts between the pipe separators; a leading, a
  trailing or a doubled separator gives an empty stage.
\<close>

fun stages_of :: "string list \<Rightarrow> string list list" where
  "stages_of [] = [[]]"
| "stages_of (t # ts) =
     (if t = ''|'' then [] # stages_of ts
      else (case stages_of ts of [] \<Rightarrow> [[t]] | s # ss \<Rightarrow> (t # s) # ss))"

text \<open>A stage is external when it has a command name and the name is not in the table.\<close>

fun external_stage :: "string list \<Rightarrow> bool" where
  "external_stage [] = False"
| "external_stage (c # a) = (c \<notin> set builtin_str)"

text \<open>The descriptors of a table that refer to an end of a channel.\<close>

fun is_chan :: "endpoint option \<Rightarrow> bool" where
  "is_chan (Some (RdEnd k)) = True"
| "is_chan (Some (WrEnd k)) = True"
| "is_chan (Some Tty) = False"
| "is_chan None = False"

definition chan_fds :: "endpoint option list \<Rightarrow> nat list" where
  "chan_fds t = filter (\<lambda>fd. is_chan (t ! fd)) [0 ..< length t]"

text \<open>The lines \<open>[1]: s1\<close>, \<open>[2]: s2\<close>, ... that number a list of strings from \<open>i\<close>.\<close>

fun numbered :: "nat \<Rightarrow> string list \<Rightarrow> string" where
  "numbered i [] = []"
| "numbered i (s # ss) = ''['' @ show_nat i @ '']: '' @ s @ ''\<newline>'' @ numbered (Suc i) ss"

text \<open>
  The invariant of the outer sorting loop: each of the elements 1 to \<open>i - 1\<close> is at most
  every element after it below \<open>len\<close>.
\<close>

definition ordered_upto :: "nat \<Rightarrow> nat \<Rightarrow> cell list \<Rightarrow> bool" where
  "ordered_upto i len a \<longleftrightarrow>
     (\<forall>k l. 0 < k \<and> k < i \<and> k < l \<and> l < len \<longrightarrow> str_of (a ! k) \<le> str_of (a ! l))"

text \<open>
  A line of input that \<open>fgets\<close> reads whole into a buffer of \<open>LSH_RL_BUFSIZE\<close> bytes and
  that \<open>strdup\<close> copies whole: no newline and no zero byte inside, and short enough.
\<close>

definition plain_line :: "string \<Rightarrow> bool" where
  "plain_line l \<longleftrightarrow>
     CHR 0x0A \<notin> set l \<and> CHR 0x00 \<notin> set l \<and> length l + 1 < LSH_RL_BUFSIZE"

text \<open>
  The world a handler leaves, whether it returned or faulted, and the argument array it
  leaves when it returned.
\<close>

fun hres_world :: "hres \<Rightarrow> world" where
  "hres_world (Inl (f, w)) = w"
| "hres_world (Inr (ret, a, q, w)) = w"

fun hres_args :: "hres \<Rightarrow> cell list option" where
  "hres_args (Inl (f, w)) = None"
| "hres_args (Inr (ret, a, q, w)) = Some a"

text \<open>The same for \<open>lsh_execute\<close>: the world, the status and the caller's process state.\<close>

fun exec_world :: "(fault \<times> world) + (int \<times> proc \<times> world) \<Rightarrow> world" where
  "exec_world (Inl (f, w)) = w"
| "exec_world (Inr (st, p, w)) = w"

fun exec_status :: "(fault \<times> world) + (int \<times> proc \<times> world) \<Rightarrow> int option" where
  "exec_status (Inl (f, w)) = None"
| "exec_status (Inr (st, p, w)) = Some st"

fun exec_proc :: "(fault \<times> world) + (int \<times> proc \<times> world) \<Rightarrow> proc option" where
  "exec_proc (Inl (f, w)) = None"
| "exec_proc (Inr (st, p, w)) = Some p"

text \<open>
  What the scan for pipes computes on a token sequence: the positions of the separators,
  counted from \<open>k\<close>, and the cells with the separators replaced by \<open>NULL\<close>.
\<close>

fun pipe_pos_from :: "nat \<Rightarrow> string list \<Rightarrow> int list" where
  "pipe_pos_from k [] = []"
| "pipe_pos_from k (t # ts) =
     (if t = ''|'' then int k # pipe_pos_from (Suc k) ts else pipe_pos_from (Suc k) ts)"

definition blank_pipes :: "string list \<Rightarrow> cell list" where
  "blank_pipes toks = map (\<lambda>t. if t = ''|'' then Nul else Ptr t) toks"

text \<open>
  The first cell of a stage as \<open>lsh_launch\<close> reads it, and whether it makes \<open>lsh_launch\<close>
  start an external program.
\<close>

fun head_cell :: "string list \<Rightarrow> fault + string option" where
  "head_cell [] = Inr None"
| "head_cell (c # a) = Inr (Some c)"

fun ext_cell :: "fault + string option \<Rightarrow> bool" where
  "ext_cell (Inr (Some name)) = (launch_builtin 0 name = None)"
| "ext_cell (Inr None) = False"
| "ext_cell (Inl f) = False"

text \<open>A descriptor table whose descriptors outside \<open>S\<close> refer to no end of a channel.\<close>

definition only_at :: "endpoint option list \<Rightarrow> nat set \<Rightarrow> bool" where
  "only_at t S \<longleftrightarrow> (\<forall>fd. fd \<notin> S \<longrightarrow> \<not> is_chan (fd_get t fd))"

text \<open>Two worlds with the same number of processes created and the same number of channels.\<close>

definition same_counts :: "world \<Rightarrow> world \<Rightarrow> bool" where
  "same_counts w w' \<longleftrightarrow> nprocs w' = nprocs w \<and> length (chans w') = length (chans w)"

section \<open>An example environment\<close>

text \<open>
  A system with the directories \<open>/tmp\<close> and \<open>cd\<close>, the programs \<open>true\<close>, \<open>false\<close> and
  \<open>ls\<close>, no failing system call, glibc's \<open>printf\<close> and zero-filled fresh memory; a shell
  process on a terminal in \<open>/home\<close> with \<open>HOME\<close> set; and a world in which nothing has
  happened yet.
\<close>

definition ex_sys :: sys where
  "ex_sys =
     \<lparr>chdir_os = (\<lambda>c d. if d = ''/tmp'' then Inr ''/tmp''
                          else if d = ''cd'' then Inr (c @ ''/cd'') else Inl ENOENT),
      read_file = (\<lambda>c f. None),
      progs = (\<lambda>n. if n = ''true'' then Some (\<lambda>p av inp. ([], inp, Exited 0))
                    else if n = ''false'' then Some (\<lambda>p av inp. ([], inp, Exited 1))
                    else if n = ''ls'' then Some (\<lambda>p av inp. (''b\<newline>a\<newline>'', inp, Exited 0))
                    else None),
      fork_ok = (\<lambda>n. True),
      pipe_ok = (\<lambda>k. True),
      null_fmt = Some ''(null)'',
      malloc_fill = (\<lambda>i. Nul)\<rparr>"

definition ex_proc :: proc where
  "ex_proc =
     \<lparr>cwd = ''/home'', envp = [''HOME'' \<mapsto> ''/home''], fdt = [Some Tty, Some Tty, Some Tty]\<rparr>"

definition ex_world :: world where
  "ex_world = \<lparr>nprocs = 0, chans = [], term_in = [], term_out = [], term_err = []\<rparr>"

section \<open>Properties of the built-in commands\<close>

lemma put_fd_Nil [simp]: "put_fd fd p [] w = w"
  by (simp add: put_fd_def split: option.splits endpoint.splits)

lemma put_out_Nil [simp]: "put_out p [] w = w"
  by (simp add: put_out_def)

text \<open>
  Claim C10. When \<open>echo\<close> is called with its name in element 0 and no argument after it,
  the branch for a missing element 0 is not taken, the loop body never runs, and nothing is
  printed, not even a newline: the handler returns 1 and leaves the world as it was.
\<close>

theorem echo_without_arguments_prints_nothing:
  assumes "cell_at args 0 = Inr (Some name)" and "cell_at args 1 = Inr None"
  shows "lsh_echo sy args p w = Inr (1, args, p, w)"
  using assms by (simp add: lsh_echo_def echo_loop.simps)

theorem echo_without_arguments_prints_nothing_witness:
  "cell_at [Ptr ''echo'', Nul] 0 = Inr (Some ''echo'')
   \<and> cell_at [Ptr ''echo'', Nul] 1 = Inr None
   \<and> lsh_echo ex_sys [Ptr ''echo'', Nul] ex_proc ex_world
       = Inr (1, [Ptr ''echo'', Nul], ex_proc, ex_world)
   \<and> term_out ex_world = []"
  using echo_without_arguments_prints_nothing
          [of "[Ptr ''echo'', Nul]" "''echo''" ex_sys ex_proc ex_world]
  by (simp add: cell_at_def ex_world_def)

text \<open>
  Claim C3. The claim asks that \<open>cd /tmp\<close> changes the working directory to \<open>/tmp\<close>. The
  handler passes \<open>args[0]\<close>, the command name, to \<open>chdir\<close>: where a directory \<open>cd\<close> exists
  the process ends up in it, and \<open>/tmp\<close> is never looked at.
\<close>

theorem cd_changes_to_command_name:
  "lsh_cd ex_sys [Ptr ''cd'', Ptr ''/tmp'', Nul] ex_proc ex_world
     = Inr (1, [Ptr ''cd'', Ptr ''/tmp'', Nul], ex_proc\<lparr>cwd := ''/home/cd''\<rparr>, ex_world)"
  by (simp add: lsh_cd_def cell_at_def ex_sys_def ex_proc_def)

text \<open>
  Claim C7. The claim asks that \<open>echo $UNSET\<close> prints the empty string for a variable that
  is not set. The handler passes the \<open>NULL\<close> that \<open>getenv\<close> returns to \<open>printf\<close>: with
  glibc the output is \<open>(null)\<close>, and with a C library that reads the string the process
  faults.
\<close>

theorem echo_unset_variable:
  "lsh_echo ex_sys [Ptr ''echo'', Ptr ''$UNSET'', Nul] ex_proc ex_world
     = Inr (1, [Ptr ''echo'', Ptr ''$UNSET'', Nul], ex_proc,
            ex_world\<lparr>term_out := ''(null)\<newline>''\<rparr>)
   \<and> lsh_echo (ex_sys\<lparr>null_fmt := None\<rparr>) [Ptr ''echo'', Ptr ''$UNSET'', Nul] ex_proc ex_world
     = Inl (NullDeref, ex_world)"
  by (simp add: lsh_echo_def cell_at_def echo_text_def echo_loop.simps ex_sys_def ex_proc_def
        ex_world_def put_out_def put_fd_def fd_get_def)

section \<open>Properties of sort\<close>

text \<open>\<open>strcmp\<close> is the lexicographic order of the strings as lists of bytes.\<close>

lemma strcmp_le: "strcmp s t \<le> 0 \<longleftrightarrow> s \<le> t"
  by (induction s t rule: strcmp.induct) (auto simp: less_char_def)

lemma strcmp_gt: "0 < strcmp s t \<longleftrightarrow> t < s"
  using strcmp_le [of s t] by auto

lemma strcmp_eq: "strcmp s t = 0 \<longleftrightarrow> s = t"
  by (induction s t rule: strcmp.induct) (auto simp: less_char_def)

lemma c_strings_append: "c_strings (map Ptr av @ Nul # r) = Inr av"
  by (induction av) auto

lemma sort_inner_length [simp]: "length (sort_inner i j len a) = length a"
  by (induction i j len a rule: sort_inner.induct) (subst sort_inner.simps, simp)

lemma sort_inner_mset:
  "i < length a \<Longrightarrow> len \<le> length a \<Longrightarrow> mset (sort_inner i j len a) = mset a"
proof (induction i j len a rule: sort_inner.induct)
  case (1 i j len a)
  show ?case
  proof (cases "j < len")
    case True
    let ?a' = "if 0 < strcmp (str_of (a ! i)) (str_of (a ! j)) then a[i := a ! j, j := a ! i] else a"
    have "mset ?a' = mset a" using True 1(2,3) by (simp add: mset_swap)
    moreover have "mset (sort_inner i (Suc j) len ?a') = mset ?a'"
      using 1(1) [OF True] 1(2,3) by simp
    ultimately show ?thesis using True by (subst sort_inner.simps) simp
  next
    case False
    then show ?thesis by (subst sort_inner.simps) simp
  qed
qed

lemma sort_inner_outside:
  "k \<noteq> i \<Longrightarrow> k < j \<or> len \<le> k \<Longrightarrow> sort_inner i j len a ! k = a ! k"
proof (induction i j len a rule: sort_inner.induct)
  case (1 i j len a)
  show ?case
  proof (cases "j < len")
    case True
    let ?a' = "if 0 < strcmp (str_of (a ! i)) (str_of (a ! j)) then a[i := a ! j, j := a ! i] else a"
    have "sort_inner i (Suc j) len ?a' ! k = ?a' ! k"
      using 1(1) [OF True] 1(2,3) by auto
    moreover have "?a' ! k = a ! k" using 1(2,3) True by auto
    ultimately show ?thesis using True by (subst sort_inner.simps) simp
  next
    case False
    then show ?thesis by (subst sort_inner.simps) simp
  qed
qed

lemma sort_inner_all:
  "i < j \<Longrightarrow> len \<le> length a \<Longrightarrow> \<forall>k. i \<le> k \<and> k < len \<longrightarrow> P (a ! k)
   \<Longrightarrow> \<forall>k. i \<le> k \<and> k < len \<longrightarrow> P (sort_inner i j len a ! k)"
proof (induction i j len a rule: sort_inner.induct)
  case (1 i j len a)
  show ?case
  proof (cases "j < len")
    case True
    let ?a' = "if 0 < strcmp (str_of (a ! i)) (str_of (a ! j)) then a[i := a ! j, j := a ! i] else a"
    have "\<forall>k. i \<le> k \<and> k < len \<longrightarrow> P (?a' ! k)"
      using 1(2,3,4) True by (auto simp: nth_list_update)
    then have "\<forall>k. i \<le> k \<and> k < len \<longrightarrow> P (sort_inner i (Suc j) len ?a' ! k)"
      using 1(1) [OF True] 1(2,3) by simp
    then show ?thesis using True by (subst sort_inner.simps) simp
  next
    case False
    then show ?thesis using 1(4) by (subst sort_inner.simps) simp
  qed
qed

lemma sort_inner_min:
  "i < j \<Longrightarrow> len \<le> length a
   \<Longrightarrow> \<forall>k. i < k \<and> k < j \<longrightarrow> str_of (a ! i) \<le> str_of (a ! k)
   \<Longrightarrow> \<forall>k. i < k \<and> k < len \<longrightarrow> str_of (sort_inner i j len a ! i) \<le> str_of (sort_inner i j len a ! k)"
proof (induction i j len a rule: sort_inner.induct)
  case (1 i j len a)
  show ?case
  proof (cases "j < len")
    case True
    let ?a' = "if 0 < strcmp (str_of (a ! i)) (str_of (a ! j)) then a[i := a ! j, j := a ! i] else a"
    have "\<forall>k. i < k \<and> k < Suc j \<longrightarrow> str_of (?a' ! i) \<le> str_of (?a' ! k)"
    proof (intro allI impI)
      fix k assume k: "i < k \<and> k < Suc j"
      show "str_of (?a' ! i) \<le> str_of (?a' ! k)"
      proof (cases "0 < strcmp (str_of (a ! i)) (str_of (a ! j))")
        case sw: True
        then have lt: "str_of (a ! j) < str_of (a ! i)" by (simp add: strcmp_gt)
        show ?thesis
        proof (cases "k = j")
          case True
          then show ?thesis using sw lt 1(2,3) \<open>j < len\<close> by (simp add: nth_list_update)
        next
          case False
          then have "k < j" using k by simp
          then have "str_of (a ! i) \<le> str_of (a ! k)" using 1(4) k by simp
          then show ?thesis using sw lt 1(2,3) \<open>j < len\<close> \<open>k < j\<close> k
            by (simp add: nth_list_update)
        qed
      next
        case nsw: False
        then have le: "str_of (a ! i) \<le> str_of (a ! j)" by (simp add: strcmp_gt)
        show ?thesis
        proof (cases "k = j")
          case True
          then show ?thesis using nsw le by simp
        next
          case False
          then have "k < j" using k by simp
          then show ?thesis using nsw 1(4) k by simp
        qed
      qed
    qed
    then have "\<forall>k. i < k \<and> k < len \<longrightarrow>
        str_of (sort_inner i (Suc j) len ?a' ! i) \<le> str_of (sort_inner i (Suc j) len ?a' ! k)"
      using 1(1) [OF True] 1(2,3) by simp
    then show ?thesis using True by (subst (1 2) sort_inner.simps) simp
  next
    case False
    then show ?thesis using 1(2,4) by (subst (1 2) sort_inner.simps) simp
  qed
qed

lemma sort_outer_length [simp]: "length (sort_outer i len a) = length a"
  by (induction i len a rule: sort_outer.induct) (subst sort_outer.simps, simp)

lemma sort_outer_mset:
  "len \<le> length a \<Longrightarrow> mset (sort_outer i len a) = mset a"
proof (induction i len a rule: sort_outer.induct)
  case (1 i len a)
  show ?case
  proof (cases "i < len")
    case True
    then have "mset (sort_inner i (Suc i) len a) = mset a"
      using 1(2) by (simp add: sort_inner_mset)
    then show ?thesis using 1(1) [OF True] 1(2) True by (subst sort_outer.simps) simp
  next
    case False
    then show ?thesis by (subst sort_outer.simps) simp
  qed
qed

lemma sort_outer_outside:
  "k < i \<or> len \<le> k \<Longrightarrow> sort_outer i len a ! k = a ! k"
proof (induction i len a rule: sort_outer.induct)
  case (1 i len a)
  show ?case
  proof (cases "i < len")
    case True
    have "sort_outer (Suc i) len (sort_inner i (Suc i) len a) ! k = sort_inner i (Suc i) len a ! k"
      using 1(1) [OF True] 1(2) by auto
    also have "\<dots> = a ! k" using 1(2) True by (intro sort_inner_outside) auto
    finally show ?thesis using True by (subst sort_outer.simps) simp
  next
    case False
    then show ?thesis by (subst sort_outer.simps) simp
  qed
qed

lemma sort_inner_ordered:
  assumes "0 < i" "i < len" "len \<le> length a" "ordered_upto i len a"
  shows "ordered_upto (Suc i) len (sort_inner i (Suc i) len a)"
  unfolding ordered_upto_def
proof (intro allI impI)
  let ?r = "sort_inner i (Suc i) len a"
  fix k l assume kl: "0 < k \<and> k < Suc i \<and> k < l \<and> l < len"
  show "str_of (?r ! k) \<le> str_of (?r ! l)"
  proof (cases "k = i")
    case True
    have "\<forall>m. i < m \<and> m < len \<longrightarrow> str_of (?r ! i) \<le> str_of (?r ! m)"
      using assms by (intro sort_inner_min) auto
    then show ?thesis using True kl by simp
  next
    case False
    then have ki: "k < i" using kl by simp
    then have rk: "?r ! k = a ! k" by (intro sort_inner_outside) auto
    show ?thesis
    proof (cases "l < i")
      case True
      then have "?r ! l = a ! l" by (intro sort_inner_outside) auto
      then show ?thesis using rk assms(4) kl ki True by (simp add: ordered_upto_def)
    next
      case False
      have "\<forall>m. i \<le> m \<and> m < len \<longrightarrow> str_of (a ! k) \<le> str_of (a ! m)"
        using assms(4) kl ki by (auto simp: ordered_upto_def)
      then have "\<forall>m. i \<le> m \<and> m < len \<longrightarrow> str_of (a ! k) \<le> str_of (?r ! m)"
        using assms(3) by (intro sort_inner_all [where P = "\<lambda>c. str_of (a ! k) \<le> str_of c"]) auto
      then show ?thesis using rk False kl by simp
    qed
  qed
qed

lemma sort_outer_ordered:
  "0 < i \<Longrightarrow> len \<le> length a \<Longrightarrow> ordered_upto i len a
   \<Longrightarrow> ordered_upto len len (sort_outer i len a)"
proof (induction i len a rule: sort_outer.induct)
  case (1 i len a)
  show ?case
  proof (cases "i < len")
    case True
    have "ordered_upto (Suc i) len (sort_inner i (Suc i) len a)"
      using True 1(2,3,4) by (intro sort_inner_ordered) auto
    then have "ordered_upto len len (sort_outer (Suc i) len (sort_inner i (Suc i) len a))"
      using 1(1) [OF True] 1(3) by simp
    then show ?thesis using True by (subst sort_outer.simps) simp
  next
    case False
    then show ?thesis using 1(4) by (subst sort_outer.simps) (auto simp: ordered_upto_def)
  qed
qed

lemma sort_print_numbered:
  "i \<le> len \<Longrightarrow> len \<le> length a
   \<Longrightarrow> sort_print i len a = numbered i (map str_of (take (len - i) (drop i a)))"
proof (induction i len a rule: sort_print.induct)
  case (1 i len a)
  show ?case
  proof (cases "i < len")
    case True
    then obtain d where d: "len - i = Suc d" by (cases "len - i") auto
    have "drop i a = a ! i # drop (Suc i) a"
      using True 1(3) by (simp add: Cons_nth_drop_Suc)
    moreover have "len - Suc i = d" using d by simp
    ultimately show ?thesis using 1(1) [OF True] True 1(3) d
      by (subst sort_print.simps) simp
  next
    case False
    then show ?thesis using 1(2) by (subst sort_print.simps) simp
  qed
qed

lemma c_strings_ex: "c_strings args = Inr av \<Longrightarrow> \<exists>rest. args = map Ptr av @ Nul # rest"
  by (induction args arbitrary: av rule: c_strings.induct) (auto split: sum.splits)

lemma map_Ptr_str_of: "\<forall>c \<in> set cs. \<exists>s. c = Ptr s \<Longrightarrow> map Ptr (map str_of cs) = cs"
  by (induction cs) auto

lemma sort_outer_result:
  assumes "c_strings args = Inr (name # strs)"
  shows "\<exists>ys. sort_outer 1 (Suc (length strs)) args
                = Ptr name # map Ptr ys @ drop (Suc (length strs)) args
              \<and> sorted ys \<and> mset ys = mset strs"
proof -
  let ?len = "Suc (length strs)"
  define r where "r = sort_outer 1 ?len args"
  define seg where "seg = take (length strs) (drop 1 r)"
  define ys where "ys = map str_of seg"
  from c_strings_ex [OF assms] obtain rest
    where args: "args = Ptr name # map Ptr strs @ Nul # rest" by auto
  have len: "?len < length args" by (simp add: args)
  have lr: "length r = length args" by (simp add: r_def)
  have "r ! 0 = args ! 0" unfolding r_def by (rule sort_outer_outside) simp
  then have r0: "r ! 0 = Ptr name" by (simp add: args)
  have tail: "drop ?len r = drop ?len args"
    unfolding r_def by (rule nth_equalityI) (auto simp: sort_outer_outside)
  have "r = take 1 r @ drop 1 r" by simp
  moreover have "take 1 r = [r ! 0]" using len lr by (cases r) auto
  moreover have "drop 1 r = seg @ drop (length strs) (drop 1 r)"
    unfolding seg_def by (rule append_take_drop_id [symmetric])
  moreover have "drop (length strs) (drop 1 r) = drop ?len r" by simp
  ultimately have "r = [r ! 0] @ seg @ drop ?len r" by metis
  then have split_r: "r = Ptr name # seg @ drop ?len args"
    using r0 tail by simp
  have dropa: "drop ?len args = Nul # rest" by (simp add: args)
  have "mset r = mset args" unfolding r_def using len by (simp add: sort_outer_mset)
  then have "mset (Ptr name # seg @ drop ?len args) = mset (Ptr name # map Ptr strs @ Nul # rest)"
    using split_r args by simp
  then have mseg: "mset seg = mset (map Ptr strs)" by (simp add: dropa)
  then have "set seg = set (map Ptr strs)" by (rule mset_eq_setD)
  then have "\<forall>c \<in> set seg. \<exists>s. c = Ptr s" by auto
  then have seg: "map Ptr ys = seg" unfolding ys_def by (rule map_Ptr_str_of)
  have "mset (map str_of seg) = mset (map str_of (map Ptr strs))"
    using mseg by (simp only: mset_map)
  then have m: "mset ys = mset strs" by (simp add: ys_def comp_def)
  have ord: "ordered_upto ?len ?len r"
    unfolding r_def using len by (intro sort_outer_ordered) (auto simp: ordered_upto_def)
  have lseg: "length seg = length strs" using len lr by (simp add: seg_def)
  have "sorted ys" unfolding sorted_iff_nth_mono_less
  proof (intro allI impI)
    fix i j assume ij: "i < j" "j < length ys"
    then have "ys ! i = str_of (r ! Suc i)" "ys ! j = str_of (r ! Suc j)"
      using lseg len lr by (auto simp: ys_def seg_def)
    then show "ys ! i \<le> ys ! j"
      using ord ij lseg by (auto simp: ordered_upto_def ys_def)
  qed
  moreover have "r = Ptr name # map Ptr ys @ drop ?len args"
    using split_r seg by simp
  ultimately show ?thesis using m unfolding r_def by blast
qed

lemma sorted_wrt_strcmp: "sorted_wrt (\<lambda>s t. strcmp s t \<le> 0) ys \<longleftrightarrow> sorted ys"
  by (simp add: strcmp_le)

lemma sort_finish_sorted:
  assumes "c_strings args = Inr (name # strs)"
  shows "\<exists>ys. sorted_wrt (\<lambda>s t. strcmp s t \<le> 0) ys \<and> mset ys = mset strs
              \<and> sort_finish args p w
                  = Inr (1, Ptr name # map Ptr ys @ drop (Suc (length strs)) args, p,
                         put_out p (numbered 1 ys) w)"
proof -
  from sort_outer_result [OF assms] obtain ys
    where r: "sort_outer 1 (Suc (length strs)) args
                = Ptr name # map Ptr ys @ drop (Suc (length strs)) args"
      and s: "sorted ys" and m: "mset ys = mset strs" by blast
  let ?r = "sort_outer 1 (Suc (length strs)) args"
  have ly: "length ys = length strs" using m by (metis size_mset)
  have "Suc (length strs) \<le> length ?r" by (subst r) (simp add: ly)
  then have "sort_print 1 (Suc (length strs)) ?r
               = numbered 1 (map str_of (take (length strs) (drop 1 ?r)))"
    using sort_print_numbered [of 1 "Suc (length strs)" ?r] by simp
  also have "take (length strs) (drop 1 ?r) = map Ptr ys" by (subst r) (simp add: ly)
  also have "map str_of (map Ptr ys) = ys" by (simp add: comp_def)
  finally have "sort_print 1 (Suc (length strs)) ?r = numbered 1 ys" .
  then have "sort_finish args p w
               = Inr (1, Ptr name # map Ptr ys @ drop (Suc (length strs)) args, p,
                      put_out p (numbered 1 ys) w)"
    using assms r by (simp add: sort_finish_def Let_def)
  then show ?thesis using s m sorted_wrt_strcmp by blast
qed

lemma cell_at_c_strings:
  "c_strings args = Inr av \<Longrightarrow> i < length av \<Longrightarrow> cell_at args i = Inr (Some (av ! i))"
  by (drule c_strings_ex) (auto simp: cell_at_def nth_append)

lemma fgets_take_line:
  "CHR 0x0A \<notin> set l \<Longrightarrow> length l < n \<Longrightarrow> fgets_take n (l @ CHR 0x0A # s) = (l @ [CHR 0x0A], s)"
proof (induction l arbitrary: n)
  case Nil
  then show ?case by (cases n) auto
next
  case (Cons c l)
  then show ?case by (cases n) auto
qed

lemma c_line_line:
  "CHR 0x0A \<notin> set l \<Longrightarrow> CHR 0x00 \<notin> set l \<Longrightarrow> c_line (l @ [CHR 0x0A]) = l"
  unfolding c_line_def by (induction l) auto

lemma sort_read_lines:
  "\<forall>l \<in> set ls. plain_line l \<Longrightarrow> position + length ls < LSH_RL_BUFSIZE
   \<Longrightarrow> position + length ls \<le> length args
   \<Longrightarrow> sort_read LSH_RL_BUFSIZE position (concat (map (\<lambda>l. l @ [CHR 0x0A]) ls)) args
        = (Inr (take position args @ map Ptr ls @ drop (position + length ls) args), [])"
proof (induction ls arbitrary: position args)
  case Nil
  then show ?case by (subst sort_read.simps) (simp add: fgets_def)
next
  case (Cons l ls)
  let ?inp = "concat (map (\<lambda>l. l @ [CHR 0x0A]) ls)"
  have pl: "plain_line l" using Cons.prems(1) by simp
  then have fg: "fgets LSH_RL_BUFSIZE (l @ CHR 0x0A # ?inp) = Some (l @ [CHR 0x0A], ?inp)"
    using fgets_take_line [of l "LSH_RL_BUFSIZE - 1" ?inp]
    by (auto simp: fgets_def plain_line_def)
  have cl: "c_line (l @ [CHR 0x0A]) = l" using pl by (simp add: plain_line_def c_line_line)
  have pos: "position < length args" "\<not> LSH_RL_BUFSIZE \<le> position + 1"
    using Cons.prems(2,3) by auto
  have IH: "sort_read LSH_RL_BUFSIZE (position + 1) ?inp (args[position := Ptr l])
      = (Inr (take (position + 1) (args[position := Ptr l]) @ map Ptr ls
              @ drop (position + 1 + length ls) (args[position := Ptr l])), [])"
    using Cons.prems by (intro Cons.IH) auto
  have "take (position + 1) (args[position := Ptr l]) = take position args @ [Ptr l]"
    using pos(1) by (simp add: take_Suc_conv_app_nth)
  moreover have "drop (position + 1 + length ls) (args[position := Ptr l])
                   = drop (position + length (l # ls)) args" by simp
  ultimately have "sort_read LSH_RL_BUFSIZE (position + 1) ?inp (args[position := Ptr l])
      = (Inr (take position args @ map Ptr (l # ls) @ drop (position + length (l # ls)) args), [])"
    using IH by simp
  then show ?case using fg cl pos
    by (subst sort_read.simps) simp
qed

lemma launch_builtin_0:
  "launch_builtin 0 name =
     (if name = ''cd'' then Some lsh_cd else if name = ''cat'' then Some lsh_cat
      else if name = ''echo'' then Some lsh_echo else if name = ''help'' then Some lsh_help
      else if name = ''exit'' then Some lsh_exit else if name = ''pwd'' then Some lsh_pwd
      else if name = ''sort'' then Some lsh_sort else None)"
  by (simp add: launch_builtin.simps lsh_num_builtins_def builtin_str_def builtin_func_def strcmp_eq)

lemma handlers_keep_args:
  "hres_args (lsh_cd sy args p w) \<in> {None, Some args}"
  "hres_args (lsh_cat sy args p w) \<in> {None, Some args}"
  "hres_args (lsh_echo sy args p w) \<in> {None, Some args}"
  "hres_args (lsh_help sy args p w) \<in> {None, Some args}"
  "hres_args (lsh_exit sy args p w) \<in> {None, Some args}"
  "hres_args (lsh_pwd sy args p w) \<in> {None, Some args}"
  by (auto simp: lsh_cd_def lsh_cat_def lsh_echo_def lsh_help_def lsh_exit_def lsh_pwd_def
           split: sum.splits option.splits prod.splits)

text \<open>
  Claim C8, amended. Called with at least one argument, \<open>sort\<close> prints its arguments in
  ascending order of \<open>strcmp\<close>, one per line, numbered from 1. Called with none, it stores
  the lines of its input from \<open>args[1]\<close> on and prints them the same way, when the lines
  are plain, fewer than the buffer size, and the cell after the last line stored holds
  \<open>NULL\<close>. \<open>echo a b c\<close> prints one line, so \<open>echo a b c | sort\<close> gives \<open>sort\<close> the one
  line \<open>a b c\<close>: in the example environment the output is \<open>[1]: a b c\<close>.
\<close>

theorem sort_prints_sorted_numbered:
  "(c_strings args = Inr (name # a1 # strs) \<longrightarrow>
      (\<exists>ys. sorted_wrt (\<lambda>s t. strcmp s t \<le> 0) ys \<and> mset ys = mset (a1 # strs)
          \<and> lsh_sort sy args p w
              = Inr (1, Ptr name # map Ptr ys @ drop (length strs + 2) args, p,
                     put_out p (numbered 1 ys) w)))
   \<and> ((\<forall>l \<in> set ls. plain_line l) \<and> length ls + 1 < LSH_RL_BUFSIZE
       \<and> stdin_avail p0 w0 = concat (map (\<lambda>l. l @ ''\<newline>'') ls)
       \<and> c_strings args0 = Inr [name0] \<and> cell_at args0 (length ls + 1) = Inr None \<longrightarrow>
      (\<exists>ys. sorted_wrt (\<lambda>s t. strcmp s t \<le> 0) ys \<and> mset ys = mset ls
          \<and> lsh_sort sy0 args0 p0 w0
              = Inr (1, Ptr name0 # map Ptr ys @ drop (length ls + 1) args0, p0,
                     put_out p0 (numbered 1 ys) (stdin_left p0 [] w0))))
   \<and> term_out (exec_world (lsh_execute ex_sys (lsh_split_line ex_sys ''echo a b c | sort'')
                              ex_proc ex_world)) = ''[1]: a b c\<newline>''"
proof (intro conjI impI)
  assume a: "c_strings args = Inr (name # a1 # strs)"
  then have "cell_at args 1 = Inr (Some a1)" using cell_at_c_strings [OF a, of 1] by simp
  then have "lsh_sort sy args p w = sort_finish args p w" by (simp add: lsh_sort_def)
  then show "\<exists>ys. sorted_wrt (\<lambda>s t. strcmp s t \<le> 0) ys \<and> mset ys = mset (a1 # strs)
          \<and> lsh_sort sy args p w
              = Inr (1, Ptr name # map Ptr ys @ drop (length strs + 2) args, p,
                     put_out p (numbered 1 ys) w)"
    using sort_finish_sorted [OF a, of p w] by simp
next
  assume h: "(\<forall>l \<in> set ls. plain_line l) \<and> length ls + 1 < LSH_RL_BUFSIZE
       \<and> stdin_avail p0 w0 = concat (map (\<lambda>l. l @ ''\<newline>'') ls)
       \<and> c_strings args0 = Inr [name0] \<and> cell_at args0 (length ls + 1) = Inr None"
  from h have c0: "c_strings args0 = Inr [name0]" by simp
  then obtain rest where args0: "args0 = Ptr name0 # Nul # rest"
    using c_strings_ex [OF c0] by auto
  from h have room: "length ls + 1 < length args0" and nulc: "args0 ! (length ls + 1) = Nul"
    by (auto simp: cell_at_def split: if_splits cell.splits)
  define args1 where "args1 = take 1 args0 @ map Ptr ls @ drop (1 + length ls) args0"
  have rd: "sort_read LSH_RL_BUFSIZE 1 (stdin_avail p0 w0) args0 = (Inr args1, [])"
    using h room sort_read_lines [of ls 1 args0] by (simp add: args1_def)
  have "drop (1 + length ls) args0 = Nul # drop (2 + length ls) args0"
    using room nulc by (metis Cons_nth_drop_Suc add.commute add_2_eq_Suc' plus_1_eq_Suc)
  then have "args1 = map Ptr (name0 # ls) @ Nul # drop (2 + length ls) args0"
    by (simp add: args1_def args0)
  then have c1: "c_strings args1 = Inr (name0 # ls)"
    using c_strings_append [of "name0 # ls"] by simp
  have d: "drop (Suc (length ls)) args1 = drop (length ls + 1) args0"
    by (simp add: args1_def args0)
  have "lsh_sort sy0 args0 p0 w0 = sort_finish args1 p0 (stdin_left p0 [] w0)"
    using rd by (simp add: lsh_sort_def args0 cell_at_def)
  then show "\<exists>ys. sorted_wrt (\<lambda>s t. strcmp s t \<le> 0) ys \<and> mset ys = mset ls
          \<and> lsh_sort sy0 args0 p0 w0
              = Inr (1, Ptr name0 # map Ptr ys @ drop (length ls + 1) args0, p0,
                     put_out p0 (numbered 1 ys) (stdin_left p0 [] w0))"
    using sort_finish_sorted [OF c1, of p0 "stdin_left p0 [] w0"] d by simp
next
  show "term_out (exec_world (lsh_execute ex_sys (lsh_split_line ex_sys ''echo a b c | sort'')
                              ex_proc ex_world)) = ''[1]: a b c\<newline>''"
    by code_simp
qed

theorem sort_prints_sorted_numbered_witness:
  "c_strings [Ptr ''sort'', Ptr ''c'', Ptr ''b'', Ptr ''a'', Nul] = Inr [''sort'', ''c'', ''b'', ''a'']
   \<and> (\<exists>ys. sorted_wrt (\<lambda>s t. strcmp s t \<le> 0) ys \<and> mset ys = mset [''c'', ''b'', ''a'']
          \<and> lsh_sort ex_sys [Ptr ''sort'', Ptr ''c'', Ptr ''b'', Ptr ''a'', Nul] ex_proc ex_world
              = Inr (1, Ptr ''sort'' # map Ptr ys @ [Nul], ex_proc,
                     put_out ex_proc (numbered 1 ys) ex_world))
   \<and> plain_line ''b'' \<and> plain_line ''a'' \<and> length [''b'', ''a''] + 1 < LSH_RL_BUFSIZE
   \<and> stdin_avail ex_proc (ex_world\<lparr>term_in := ''b\<newline>a\<newline>''\<rparr>)
        = concat (map (\<lambda>l. l @ ''\<newline>'') [''b'', ''a''])
   \<and> c_strings [Ptr ''sort'', Nul, Nul, Nul] = Inr [''sort'']
   \<and> cell_at [Ptr ''sort'', Nul, Nul, Nul] (length [''b'', ''a''] + 1) = Inr None
   \<and> (\<exists>ys. sorted_wrt (\<lambda>s t. strcmp s t \<le> 0) ys \<and> mset ys = mset [''b'', ''a'']
          \<and> lsh_sort ex_sys [Ptr ''sort'', Nul, Nul, Nul] ex_proc (ex_world\<lparr>term_in := ''b\<newline>a\<newline>''\<rparr>)
              = Inr (1, Ptr ''sort'' # map Ptr ys @ [Nul], ex_proc,
                     put_out ex_proc (numbered 1 ys)
                       (stdin_left ex_proc [] (ex_world\<lparr>term_in := ''b\<newline>a\<newline>''\<rparr>))))"
proof -
  have h1: "c_strings [Ptr ''sort'', Ptr ''c'', Ptr ''b'', Ptr ''a'', Nul]
              = Inr (''sort'' # ''c'' # [''b'', ''a''])" by simp
  have h2: "(\<forall>l \<in> set [''b'', ''a'']. plain_line l) \<and> length [''b'', ''a''] + 1 < LSH_RL_BUFSIZE
     \<and> stdin_avail ex_proc (ex_world\<lparr>term_in := ''b\<newline>a\<newline>''\<rparr>)
          = concat (map (\<lambda>l. l @ ''\<newline>'') [''b'', ''a''])
     \<and> c_strings [Ptr ''sort'', Nul, Nul, Nul] = Inr [''sort'']
     \<and> cell_at [Ptr ''sort'', Nul, Nul, Nul] (length [''b'', ''a''] + 1) = Inr None"
    by (simp add: plain_line_def LSH_RL_BUFSIZE_def stdin_avail_def fd_get_def ex_proc_def
          ex_world_def cell_at_def)
  note t = sort_prints_sorted_numbered
             [where args = "[Ptr ''sort'', Ptr ''c'', Ptr ''b'', Ptr ''a'', Nul]"
                and name = "''sort''" and ?a1.0 = "''c''" and strs = "[''b'', ''a'']"
                and sy = ex_sys and p = ex_proc and w = ex_world
                and ls = "[''b'', ''a'']" and ?p0.0 = ex_proc
                and ?w0.0 = "ex_world\<lparr>term_in := ''b\<newline>a\<newline>''\<rparr>"
                and ?args0.0 = "[Ptr ''sort'', Nul, Nul, Nul]" and ?name0.0 = "''sort''"
                and ?sy0.0 = ex_sys]
  from t have c1: "\<exists>ys. sorted_wrt (\<lambda>s t. strcmp s t \<le> 0) ys \<and> mset ys = mset [''c'', ''b'', ''a'']
          \<and> lsh_sort ex_sys [Ptr ''sort'', Ptr ''c'', Ptr ''b'', Ptr ''a'', Nul] ex_proc ex_world
              = Inr (1, Ptr ''sort'' # map Ptr ys @ [Nul], ex_proc,
                     put_out ex_proc (numbered 1 ys) ex_world)"
    using h1 by simp
  from t h2 have c2: "\<exists>ys. sorted_wrt (\<lambda>s t. strcmp s t \<le> 0) ys \<and> mset ys = mset [''b'', ''a'']
          \<and> lsh_sort ex_sys [Ptr ''sort'', Nul, Nul, Nul] ex_proc (ex_world\<lparr>term_in := ''b\<newline>a\<newline>''\<rparr>)
              = Inr (1, Ptr ''sort'' # map Ptr ys @ [Nul], ex_proc,
                     put_out ex_proc (numbered 1 ys)
                       (stdin_left ex_proc [] (ex_world\<lparr>term_in := ''b\<newline>a\<newline>''\<rparr>)))"
    by simp
  have h3: "plain_line ''b'' \<and> plain_line ''a''" using h2 by simp
  show ?thesis using h1 h2 h3 c1 c2 by simp
qed

text \<open>
  Claim C8 as stated fails on its own example: \<open>echo a b c | sort\<close> does not print the
  three lines \<open>[1]: a\<close>, \<open>[2]: b\<close>, \<open>[3]: c\<close>.
\<close>

theorem echo_sort_round_trip_counterexample:
  "term_out (exec_world (lsh_execute ex_sys (lsh_split_line ex_sys ''echo a b c | sort'')
                           ex_proc ex_world))
     \<noteq> ''[1]: a\<newline>[2]: b\<newline>[3]: c\<newline>''"
  by code_simp

text \<open>
  Claim C9, amended. A stage whose command is not \<open>sort\<close>, built in or external, leaves its
  argument array as it was dispatched. \<open>sort\<close> with at least one argument rearranges the
  elements after the command name in place into ascending order; the command name and
  the cells from the terminating \<open>NULL\<close> on stay.
\<close>

theorem argument_list_changes_only_in_sort:
  "(cell_at args 0 = Inr (Some name) \<and> name \<noteq> ''sort'' \<longrightarrow>
      hres_args (lsh_launch sy args p w) \<in> {None, Some args})
   \<and> (c_strings args0 = Inr (''sort'' # a1 # strs) \<longrightarrow>
        (\<exists>ys. sorted_wrt (\<lambda>s t. strcmp s t \<le> 0) ys \<and> mset ys = mset (a1 # strs)
           \<and> hres_args (lsh_launch sy0 args0 p0 w0)
               = Some (Ptr ''sort'' # map Ptr ys @ drop (length strs + 2) args0)))"
proof (intro conjI impI)
  assume "cell_at args 0 = Inr (Some name) \<and> name \<noteq> ''sort''"
  then show "hres_args (lsh_launch sy args p w) \<in> {None, Some args}"
    using handlers_keep_args [of sy args p w]
    by (auto simp: lsh_launch_def launch_builtin_0 split: prod.splits)
next
  assume a: "c_strings args0 = Inr (''sort'' # a1 # strs)"
  have 0: "cell_at args0 0 = Inr (Some ''sort'')" using cell_at_c_strings [OF a, of 0] by simp
  have 1: "cell_at args0 1 = Inr (Some a1)" using cell_at_c_strings [OF a, of 1] by simp
  have "lsh_launch sy0 args0 p0 w0 = sort_finish args0 p0 w0"
    using 0 1 by (simp add: lsh_launch_def launch_builtin_0 lsh_sort_def)
  then show "\<exists>ys. sorted_wrt (\<lambda>s t. strcmp s t \<le> 0) ys \<and> mset ys = mset (a1 # strs)
           \<and> hres_args (lsh_launch sy0 args0 p0 w0)
               = Some (Ptr ''sort'' # map Ptr ys @ drop (length strs + 2) args0)"
    using sort_finish_sorted [OF a, of p0 w0] by auto
qed

theorem argument_list_changes_only_in_sort_witness:
  "cell_at [Ptr ''echo'', Ptr ''b'', Ptr ''a'', Nul] 0 = Inr (Some ''echo'') \<and> ''echo'' \<noteq> ''sort''
   \<and> hres_args (lsh_launch ex_sys [Ptr ''echo'', Ptr ''b'', Ptr ''a'', Nul] ex_proc ex_world)
       \<in> {None, Some [Ptr ''echo'', Ptr ''b'', Ptr ''a'', Nul]}
   \<and> c_strings [Ptr ''sort'', Ptr ''b'', Ptr ''a'', Nul] = Inr [''sort'', ''b'', ''a'']
   \<and> (\<exists>ys. sorted_wrt (\<lambda>s t. strcmp s t \<le> 0) ys \<and> mset ys = mset [''b'', ''a'']
         \<and> hres_args (lsh_launch ex_sys [Ptr ''sort'', Ptr ''b'', Ptr ''a'', Nul] ex_proc ex_world)
             = Some (Ptr ''sort'' # map Ptr ys @ [Nul]))"
  using argument_list_changes_only_in_sort
          [where args = "[Ptr ''echo'', Ptr ''b'', Ptr ''a'', Nul]" and name = "''echo''"
             and sy = ex_sys and p = ex_proc and w = ex_world
             and ?args0.0 = "[Ptr ''sort'', Ptr ''b'', Ptr ''a'', Nul]" and ?a1.0 = "''b''"
             and strs = "[''a'']" and ?sy0.0 = ex_sys and ?p0.0 = ex_proc and ?w0.0 = ex_world]
  by (simp add: cell_at_def)

text \<open>
  Claim C9 as stated fails: between dispatch and completion \<open>sort b a\<close> turns its
  argument array into \<open>sort a b\<close>.
\<close>

theorem sort_rearranges_arguments_counterexample:
  "hres_args (lsh_launch ex_sys [Ptr ''sort'', Ptr ''b'', Ptr ''a'', Nul] ex_proc ex_world)
     = Some [Ptr ''sort'', Ptr ''a'', Ptr ''b'', Nul]
   \<and> [Ptr ''sort'', Ptr ''a'', Ptr ''b'', Nul] \<noteq> [Ptr ''sort'', Ptr ''b'', Ptr ''a'', Nul]"
  by code_simp

section \<open>Properties of the scan for pipes\<close>

lemma cell_at_drop: "cell_at (drop n a) k = cell_at a (n + k)"
  by (auto simp: cell_at_def)

lemma scan_pipes_spec:
  "length locs + length (pipe_pos_from k toks) \<le> 10 \<Longrightarrow> k = length pre
   \<Longrightarrow> scan_pipes k locs (pre @ map Ptr toks @ Nul # rest)
        = Inr (locs @ pipe_pos_from k toks, pre @ blank_pipes toks @ Nul # rest)"
proof (induction toks arbitrary: k locs pre)
  case Nil
  then show ?case
    by (subst scan_pipes.simps) (simp add: cell_at_def blank_pipes_def)
next
  case (Cons t ts)
  have c: "cell_at (pre @ map Ptr (t # ts) @ Nul # rest) k = Inr (Some t)"
    using Cons.prems(2) by (simp add: cell_at_def)
  show ?case
  proof (cases "t = ''|''")
    case True
    have upd: "(pre @ map Ptr (t # ts) @ Nul # rest)[k := Nul]
                 = (pre @ [Nul]) @ map Ptr ts @ Nul # rest"
      using Cons.prems(2) by (simp add: list_update_append)
    have "scan_pipes (Suc k) (locs @ [int k]) ((pre @ [Nul]) @ map Ptr ts @ Nul # rest)
            = Inr ((locs @ [int k]) @ pipe_pos_from (Suc k) ts,
                   (pre @ [Nul]) @ blank_pipes ts @ Nul # rest)"
      using Cons.prems True by (intro Cons.IH) auto
    then show ?thesis using c True Cons.prems(1) upd
      by (subst scan_pipes.simps) (simp add: strcmp_eq blank_pipes_def)
  next
    case False
    have "scan_pipes (Suc k) locs ((pre @ [Ptr t]) @ map Ptr ts @ Nul # rest)
            = Inr (locs @ pipe_pos_from (Suc k) ts,
                   (pre @ [Ptr t]) @ blank_pipes ts @ Nul # rest)"
      using Cons.prems False by (intro Cons.IH) auto
    then show ?thesis using c False
      by (subst scan_pipes.simps) (simp add: strcmp_eq blank_pipes_def)
  qed
qed

lemma scan_pipes_overflow:
  "10 < length locs + length (pipe_pos_from k toks) \<Longrightarrow> length locs \<le> 10 \<Longrightarrow> k = length pre
   \<Longrightarrow> scan_pipes k locs (pre @ map Ptr toks @ Nul # rest) = Inl OutOfBounds"
proof (induction toks arbitrary: k locs pre)
  case Nil
  then show ?case by simp
next
  case (Cons t ts)
  have c: "cell_at (pre @ map Ptr (t # ts) @ Nul # rest) k = Inr (Some t)"
    using Cons.prems(3) by (simp add: cell_at_def)
  show ?case
  proof (cases "t = ''|''")
    case True
    have upd: "(pre @ map Ptr (t # ts) @ Nul # rest)[k := Nul]
                 = (pre @ [Nul]) @ map Ptr ts @ Nul # rest"
      using Cons.prems(3) by (simp add: list_update_append)
    show ?thesis
    proof (cases "length locs < 10")
      case lt: True
      have "scan_pipes (Suc k) (locs @ [int k]) ((pre @ [Nul]) @ map Ptr ts @ Nul # rest)
              = Inl OutOfBounds"
        using Cons.prems True lt by (intro Cons.IH) auto
      then show ?thesis using c True lt upd
        by (subst scan_pipes.simps) (simp add: strcmp_eq)
    next
      case False
      then show ?thesis using c True
        by (subst scan_pipes.simps) (simp add: strcmp_eq)
    qed
  next
    case False
    have "scan_pipes (Suc k) locs ((pre @ [Ptr t]) @ map Ptr ts @ Nul # rest) = Inl OutOfBounds"
      using Cons.prems False by (intro Cons.IH) auto
    then show ?thesis using c False
      by (subst scan_pipes.simps) (simp add: strcmp_eq)
  qed
qed

lemma pipe_pos_from_none: "''|'' \<notin> set toks \<Longrightarrow> pipe_pos_from k toks = []"
  by (induction toks arbitrary: k) auto

lemma blank_pipes_none: "''|'' \<notin> set toks \<Longrightarrow> blank_pipes toks = map Ptr toks"
  by (induction toks) (auto simp: blank_pipes_def)

lemma length_pipe_pos_from: "length (pipe_pos_from k toks) = count_list toks ''|''"
  by (induction toks arbitrary: k) auto

lemma length_stages_of: "length (stages_of toks) = Suc (count_list toks ''|'')"
  by (induction toks) (auto split: list.splits)

lemma stages_of_not_Nil [simp]: "stages_of toks \<noteq> []"
  by (induction toks) (auto split: list.splits)

lemma stage_heads:
  "k = length pre \<Longrightarrow>
   cell_at (pre @ blank_pipes toks @ Nul # rest) k = head_cell (hd (stages_of toks))
   \<and> map (\<lambda>l. cell_at (pre @ blank_pipes toks @ Nul # rest) (nat (l + 1))) (pipe_pos_from k toks)
       = map head_cell (tl (stages_of toks))"
proof (induction toks arbitrary: k pre)
  case Nil
  then show ?case by (simp add: cell_at_def blank_pipes_def)
next
  case (Cons t ts)
  show ?case
  proof (cases "t = ''|''")
    case True
    have eq: "pre @ blank_pipes (t # ts) @ Nul # rest = (pre @ [Nul]) @ blank_pipes ts @ Nul # rest"
      using True by (simp add: blank_pipes_def)
    have IH: "cell_at ((pre @ [Nul]) @ blank_pipes ts @ Nul # rest) (Suc k) = head_cell (hd (stages_of ts))
       \<and> map (\<lambda>l. cell_at ((pre @ [Nul]) @ blank_pipes ts @ Nul # rest) (nat (l + 1))) (pipe_pos_from (Suc k) ts)
           = map head_cell (tl (stages_of ts))"
      using Cons.prems by (intro Cons.IH) auto
    have "map head_cell (stages_of ts) = head_cell (hd (stages_of ts)) # map head_cell (tl (stages_of ts))"
      by (cases "stages_of ts") auto
    moreover have "nat (int k + 1) = Suc k" by simp
    moreover have "cell_at (pre @ blank_pipes (t # ts) @ Nul # rest) k = Inr None"
      using True Cons.prems by (simp add: cell_at_def blank_pipes_def)
    ultimately show ?thesis using True IH unfolding eq by simp
  next
    case False
    have eq: "pre @ blank_pipes (t # ts) @ Nul # rest = (pre @ [Ptr t]) @ blank_pipes ts @ Nul # rest"
      using False by (simp add: blank_pipes_def)
    have IH: "cell_at ((pre @ [Ptr t]) @ blank_pipes ts @ Nul # rest) (Suc k) = head_cell (hd (stages_of ts))
       \<and> map (\<lambda>l. cell_at ((pre @ [Ptr t]) @ blank_pipes ts @ Nul # rest) (nat (l + 1))) (pipe_pos_from (Suc k) ts)
           = map head_cell (tl (stages_of ts))"
      using Cons.prems by (intro Cons.IH) auto
    have "cell_at (pre @ blank_pipes (t # ts) @ Nul # rest) k = Inr (Some t)"
      using False Cons.prems by (simp add: cell_at_def blank_pipes_def)
    then show ?thesis using False IH unfolding eq
      by (cases "stages_of ts") auto
  qed
qed

lemma stage_heads_all:
  "map (\<lambda>l. cell_at (blank_pipes toks @ Nul # rest) (nat (l + 1))) (- 1 # pipe_pos_from 0 toks)
     = map head_cell (stages_of toks)"
  using stage_heads [of 0 "[]" toks rest] by (cases "stages_of toks") auto

lemma ext_cell_head: "ext_cell (head_cell s) = external_stage s"
  by (cases s) (auto simp: launch_builtin_0 builtin_str_def)

section \<open>Processes and channels that a stage creates\<close>

lemma same_counts_refl [simp]: "same_counts w w"
  by (simp add: same_counts_def)

lemma same_counts_trans: "same_counts w w1 \<Longrightarrow> same_counts w1 w2 \<Longrightarrow> same_counts w w2"
  by (simp add: same_counts_def)

lemma same_counts_put_fd [simp]: "same_counts w (put_fd fd p s w)"
  by (simp add: same_counts_def put_fd_def split: option.splits endpoint.splits)

lemma same_counts_put_fd2 [simp]: "same_counts w w1 \<Longrightarrow> same_counts w (put_fd fd p s w1)"
  using same_counts_trans same_counts_put_fd by blast

lemma same_counts_stdin_left [simp]: "same_counts w (stdin_left p rest w)"
  by (simp add: same_counts_def stdin_left_def split: option.splits endpoint.splits)

lemma same_counts_sort_finish: "same_counts w (hres_world (sort_finish a p w))"
  by (simp add: sort_finish_def Let_def put_out_def split: sum.splits)

lemma same_counts_handlers:
  "same_counts w (hres_world (lsh_cd sy a p w))"
  "same_counts w (hres_world (lsh_cat sy a p w))"
  "same_counts w (hres_world (lsh_echo sy a p w))"
  "same_counts w (hres_world (lsh_help sy a p w))"
  "same_counts w (hres_world (lsh_exit sy a p w))"
  "same_counts w (hres_world (lsh_pwd sy a p w))"
  by (auto simp: lsh_cd_def lsh_cat_def lsh_echo_def lsh_help_def lsh_exit_def lsh_pwd_def
        put_out_def put_err_def split: sum.splits option.splits prod.splits)

lemma same_counts_sort: "same_counts w (hres_world (lsh_sort sy a p w))"
proof -
  have "same_counts w (hres_world (sort_finish a1 p (stdin_left p rest w)))" for a1 rest
    using same_counts_trans [OF same_counts_stdin_left same_counts_sort_finish] .
  then show ?thesis
    by (auto simp: lsh_sort_def same_counts_sort_finish split: sum.splits option.splits prod.splits)
qed

lemma same_counts_launch_child: "same_counts w (snd (launch_child sy name a p w))"
  by (auto simp: launch_child_def execvp_def put_out_def put_err_def
           intro: same_counts_trans [OF same_counts_stdin_left]
           split: sum.splits option.splits prod.splits)

lemma launch_counts:
  "nprocs (hres_world (lsh_launch sy a p w))
     = nprocs w + (if ext_cell (cell_at a 0) \<and> fork_ok sy (nprocs w) then 1 else 0)
   \<and> length (chans (hres_world (lsh_launch sy a p w))) = length (chans w)"
proof (cases "cell_at a 0")
  case (Inl f)
  then show ?thesis by (simp add: lsh_launch_def)
next
  case (Inr c)
  show ?thesis
  proof (cases c)
    case None
    then show ?thesis using Inr by (simp add: lsh_launch_def)
  next
    case (Some name)
    show ?thesis
    proof (cases "launch_builtin 0 name")
      case None
      have "same_counts (w\<lparr>nprocs := Suc (nprocs w)\<rparr>)
              (snd (launch_child sy name a p (w\<lparr>nprocs := Suc (nprocs w)\<rparr>)))"
        by (rule same_counts_launch_child)
      moreover have "same_counts w (put_err p (perror_lsh EAGAIN) w)" by (simp add: put_err_def)
      ultimately show ?thesis using Inr Some None
        by (auto simp: lsh_launch_def same_counts_def split: prod.splits)
    next
      case (Some h)
      then have "same_counts w (hres_world (h sy a p w))"
        using same_counts_handlers [of w sy a p] same_counts_sort [of w sy a p]
        by (auto simp: launch_builtin_0 split: if_splits)
      then show ?thesis using Inr \<open>c = Some name\<close> Some
        by (simp add: lsh_launch_def same_counts_def)
    qed
  qed
qed

section \<open>Descriptors of the orchestrating process\<close>

lemma fd_get_set_fd: "fd_get (set_fd t fd e) fd' = (if fd' = fd then Some e else fd_get t fd')"
  by (auto simp: fd_get_def set_fd_def nth_append nth_list_update)

lemma fd_get_close_fd: "fd_get (close_fd t fd) fd' = (if fd' = fd then None else fd_get t fd')"
  by (auto simp: fd_get_def close_fd_def nth_list_update)

lemma only_at_set_fd: "only_at t S \<Longrightarrow> only_at (set_fd t fd e) (insert fd S)"
  by (simp add: only_at_def fd_get_set_fd)

lemma only_at_close_fd: "only_at t S' \<Longrightarrow> S' \<subseteq> insert fd S \<Longrightarrow> only_at (close_fd t fd) S"
  by (auto simp: only_at_def fd_get_close_fd)

lemma only_at_chan_fds: "only_at t {} \<longleftrightarrow> chan_fds t = []"
proof
  assume "only_at t {}"
  then have "\<not> is_chan (fd_get t fd)" for fd by (simp add: only_at_def)
  then have "\<forall>fd < length t. \<not> is_chan (t ! fd)" by (metis fd_get_def)
  then show "chan_fds t = []" by (simp add: chan_fds_def filter_empty_conv)
next
  assume "chan_fds t = []"
  then have "\<forall>fd < length t. \<not> is_chan (t ! fd)" by (simp add: chan_fds_def filter_empty_conv)
  then show "only_at t {}" by (auto simp: only_at_def fd_get_def)
qed

lemma sys_pipe_ok:
  assumes "pipe_ok sy (length (chans w))"
  shows "\<exists>r wr t2. sys_pipe sy p w = Some ((r, wr), p\<lparr>fdt := t2\<rparr>, w\<lparr>chans := chans w @ [[]]\<rparr>)
           \<and> (\<forall>S. only_at (fdt p) S \<longrightarrow> only_at t2 (insert r (insert wr S)))"
proof -
  let ?k = "length (chans w)"
  let ?r = "free_fd (fdt p)"
  let ?t1 = "set_fd (fdt p) ?r (RdEnd ?k)"
  let ?wr = "free_fd ?t1"
  let ?t2 = "set_fd ?t1 ?wr (WrEnd ?k)"
  have "sys_pipe sy p w = Some ((?r, ?wr), p\<lparr>fdt := ?t2\<rparr>, w\<lparr>chans := chans w @ [[]]\<rparr>)"
    using assms by (simp add: sys_pipe_def Let_def)
  moreover have "only_at ?t2 (insert ?r (insert ?wr S))" if "only_at (fdt p) S" for S
  proof -
    have "only_at ?t2 (insert ?wr (insert ?r S))"
      using that by (intro only_at_set_fd)
    then show ?thesis by (simp add: insert_commute)
  qed
  ultimately show ?thesis by blast
qed

lemma stage_child_counts:
  assumes "stage_fds i pc pfd (fdt p) = Inr t'"
  shows "nprocs (snd (stage_child sy i pc pfd locs args p w))
           = nprocs w + (if ext_cell (cell_at args (nat (locs ! i + 1))) \<and> fork_ok sy (nprocs w)
                         then 1 else 0)
         \<and> length (chans (snd (stage_child sy i pc pfd locs args p w))) = length (chans w)"
proof -
  let ?a = "drop (nat (locs ! i + 1)) args"
  let ?r = "lsh_launch sy ?a (p\<lparr>fdt := t'\<rparr>) w"
  have "snd (stage_child sy i pc pfd locs args p w) = hres_world ?r"
    using assms by (cases ?r rule: hres_world.cases) (simp_all add: stage_child_def)
  moreover have "cell_at ?a 0 = cell_at args (nat (locs ! i + 1))" by (simp add: cell_at_drop)
  ultimately show ?thesis using launch_counts [of sy ?a "p\<lparr>fdt := t'\<rparr>" w] by simp
qed

lemma stage_fds_ok:
  assumes "i = 0 \<or> (\<exists>rw. pfd_at pfd (i - 1) = Inr rw)"
      and "i = pc \<and> 0 < i \<or> (\<exists>rw. pfd_at pfd i = Inr rw)"
  shows "\<exists>t'. stage_fds i pc pfd t = Inr t'"
  using assms by (auto simp: stage_fds_def split: prod.splits)

text \<open>The \<open>fork\<close> of one stage, whether it succeeds or not.\<close>

lemma fork_stage:
  assumes "stage_fds i pc pfd (fdt p) = Inr t'"
  shows "\<exists>kids1 w2.
           (if fork_ok sy (nprocs w)
            then (case stage_child sy i pc pfd locs args p (w\<lparr>nprocs := Suc (nprocs w)\<rparr>) of
                    (status, w2) \<Rightarrow> (kids @ [status], w2))
            else (kids, w)) = (kids1, w2)
         \<and> length (chans w2) = length (chans w)
         \<and> ((\<forall>n. fork_ok sy n) \<longrightarrow>
              nprocs w2 = nprocs w + 1
                + (if ext_cell (cell_at args (nat (locs ! i + 1))) then 1 else 0)
              \<and> length kids1 = length kids + 1)"
proof (cases "fork_ok sy (nprocs w)")
  case True
  obtain st w2
    where sc: "stage_child sy i pc pfd locs args p (w\<lparr>nprocs := Suc (nprocs w)\<rparr>) = (st, w2)"
    by (cases "stage_child sy i pc pfd locs args p (w\<lparr>nprocs := Suc (nprocs w)\<rparr>)") auto
  have "length (chans w2) = length (chans w)"
       "(\<forall>n. fork_ok sy n) \<longrightarrow> nprocs w2 = nprocs w + 1
          + (if ext_cell (cell_at args (nat (locs ! i + 1))) then 1 else 0)"
    using stage_child_counts [OF assms, of sy locs args "w\<lparr>nprocs := Suc (nprocs w)\<rparr>"] sc
    by simp_all
  then show ?thesis using True sc by simp
next
  case False
  then show ?thesis by auto
qed

text \<open>One iteration of the loop that builds the pipeline.\<close>

lemma pipe_loop_step:
  assumes ok: "\<forall>k. pipe_ok sy k"
    and pc: "1 \<le> pc" "pc \<le> 9"
    and i: "i \<le> pc" and lp: "length pfd = 9"
    and inv0: "i = 0 \<longrightarrow> only_at (fdt p) S0"
    and inv1: "0 < i \<longrightarrow> (\<exists>r wr. pfd ! (i - 1) = Some (r, wr)
                                \<and> only_at (fdt p) (insert r (insert wr S0)))"
  shows "\<exists>pfd1 p2 w2 kids1.
           pipe_loop sy pc locs args i pfd p w kids
             = pipe_loop sy pc locs args (Suc i) pfd1 p2 w2 kids1
         \<and> length pfd1 = 9 \<and> cwd p2 = cwd p \<and> envp p2 = envp p
         \<and> (i = pc \<longrightarrow> only_at (fdt p2) S0)
         \<and> (i < pc \<longrightarrow> (\<exists>r wr. pfd1 ! i = Some (r, wr)
                              \<and> only_at (fdt p2) (insert r (insert wr S0))))
         \<and> length (chans w2) = length (chans w) + (if i < pc then 1 else 0)
         \<and> ((\<forall>n. fork_ok sy n) \<longrightarrow>
              nprocs w2 = nprocs w + 1
                + (if ext_cell (cell_at args (nat (locs ! i + 1))) then 1 else 0)
              \<and> length kids1 = length kids + 1)"
proof (cases "i < pc")
  case True
  from ok sys_pipe_ok [of sy w p] obtain r' wr' t2
    where sp: "sys_pipe sy p w = Some ((r', wr'), p\<lparr>fdt := t2\<rparr>, w\<lparr>chans := chans w @ [[]]\<rparr>)"
      and oa: "\<And>S. only_at (fdt p) S \<Longrightarrow> only_at t2 (insert r' (insert wr' S))"
    by blast
  define pfd1 where "pfd1 = pfd[i := Some (r', wr')]"
  define p1 where "p1 = p\<lparr>fdt := t2\<rparr>"
  define w1 where "w1 = w\<lparr>chans := chans w @ [[]]\<rparr>"
  have i9: "i < 9" using True pc by simp
  have dp: "do_pipe sy i pfd p w = Inr (pfd1, p1, w1)"
    using sp i9 lp by (simp add: do_pipe_def pfd1_def p1_def w1_def)
  have pi: "pfd_at pfd1 i = Inr (r', wr')" using i9 lp by (simp add: pfd_at_def pfd1_def)
  have pim: "0 < i \<Longrightarrow> \<exists>r wr. pfd_at pfd1 (i - 1) = Inr (r, wr)
                               \<and> only_at (fdt p) (insert r (insert wr S0))"
    using inv1 i9 lp by (auto simp: pfd_at_def pfd1_def)
  have "\<exists>t'. stage_fds i pc pfd1 (fdt p1) = Inr t'"
    using pi pim by (intro stage_fds_ok) auto
  then obtain t' where sf: "stage_fds i pc pfd1 (fdt p1) = Inr t'" by blast
  from fork_stage [OF sf, where sy = sy and w = w1 and locs = locs and args = args
                     and kids = kids] obtain kids1 w2
    where fk: "(if fork_ok sy (nprocs w1)
                then (case stage_child sy i pc pfd1 locs args p1 (w1\<lparr>nprocs := Suc (nprocs w1)\<rparr>) of
                        (status, w2) \<Rightarrow> (kids @ [status], w2))
                else (kids, w1)) = (kids1, w2)"
      and ch: "length (chans w2) = length (chans w1)"
      and cnt: "(\<forall>n. fork_ok sy n) \<longrightarrow>
                  nprocs w2 = nprocs w1 + 1
                    + (if ext_cell (cell_at args (nat (locs ! i + 1))) then 1 else 0)
                  \<and> length kids1 = length kids + 1"
    by blast
  have ch': "length (chans w2) = length (chans w) + 1" using ch by (simp add: w1_def)
  have cnt': "(\<forall>n. fork_ok sy n) \<longrightarrow>
                nprocs w2 = nprocs w + 1
                  + (if ext_cell (cell_at args (nat (locs ! i + 1))) then 1 else 0)
                \<and> length kids1 = length kids + 1"
    using cnt by (simp add: w1_def)
  show ?thesis
  proof (cases "0 < i")
    case False
    then have i0: "i = 0" by simp
    have "pipe_loop sy pc locs args i pfd p w kids
            = pipe_loop sy pc locs args (Suc i) pfd1 p1 w2 kids1"
      using True i0 dp by (subst pipe_loop.simps) (simp add: fk)
    moreover have "only_at (fdt p1) (insert r' (insert wr' S0))"
      using oa [of S0] inv0 i0 by (simp add: p1_def)
    moreover have "pfd1 ! i = Some (r', wr')" using i9 lp by (simp add: pfd1_def)
    ultimately show ?thesis using ch' cnt' True lp
      by (intro exI [of _ pfd1] exI [of _ p1] exI [of _ w2] exI [of _ kids1])
         (auto simp: pfd1_def p1_def)
  next
    case pos: True
    from pim [OF pos] obtain r wr
      where pm: "pfd_at pfd1 (i - 1) = Inr (r, wr)"
        and o: "only_at (fdt p) (insert r (insert wr S0))" by blast
    define p2 where "p2 = p1\<lparr>fdt := close_fd (close_fd (fdt p1) r) wr\<rparr>"
    have "pipe_loop sy pc locs args i pfd p w kids
            = pipe_loop sy pc locs args (Suc i) pfd1 p2 w2 kids1"
      using True pos dp pm by (subst pipe_loop.simps) (simp add: fk p2_def)
    moreover have "only_at (fdt p2) (insert r' (insert wr' S0))"
    proof -
      have "only_at (close_fd t2 r) (insert wr (insert r' (insert wr' S0)))"
        using oa [OF o] by (rule only_at_close_fd) auto
      then have "only_at (close_fd (close_fd t2 r) wr) (insert r' (insert wr' S0))"
        by (rule only_at_close_fd) auto
      then show ?thesis by (simp add: p2_def p1_def)
    qed
    moreover have "pfd1 ! i = Some (r', wr')" using i9 lp by (simp add: pfd1_def)
    ultimately show ?thesis using ch' cnt' True lp
      by (intro exI [of _ pfd1] exI [of _ p2] exI [of _ w2] exI [of _ kids1])
         (auto simp: pfd1_def p1_def p2_def)
  qed
next
  case False
  then have ipc: "i = pc" using i by simp
  then have pos: "0 < i" using pc by simp
  from inv1 pos obtain r wr
    where pr: "pfd ! (i - 1) = Some (r, wr)" and o: "only_at (fdt p) (insert r (insert wr S0))"
    by blast
  have pm: "pfd_at pfd (i - 1) = Inr (r, wr)" using pr lp pc ipc by (simp add: pfd_at_def)
  have "\<exists>t'. stage_fds i pc pfd (fdt p) = Inr t'"
    using pm ipc pos by (intro stage_fds_ok) auto
  then obtain t' where sf: "stage_fds i pc pfd (fdt p) = Inr t'" by blast
  from fork_stage [OF sf, where sy = sy and w = w and locs = locs and args = args
                     and kids = kids] obtain kids1 w2
    where fk: "(if fork_ok sy (nprocs w)
                then (case stage_child sy i pc pfd locs args p (w\<lparr>nprocs := Suc (nprocs w)\<rparr>) of
                        (status, w2) \<Rightarrow> (kids @ [status], w2))
                else (kids, w)) = (kids1, w2)"
      and ch: "length (chans w2) = length (chans w)"
      and cnt: "(\<forall>n. fork_ok sy n) \<longrightarrow>
                  nprocs w2 = nprocs w + 1
                    + (if ext_cell (cell_at args (nat (locs ! i + 1))) then 1 else 0)
                  \<and> length kids1 = length kids + 1"
    by blast
  define p2 where "p2 = p\<lparr>fdt := close_fd (close_fd (fdt p) r) wr\<rparr>"
  have "pipe_loop sy pc locs args i pfd p w kids
          = pipe_loop sy pc locs args (Suc i) pfd p2 w2 kids1"
    using ipc pos pm by (subst pipe_loop.simps) (simp add: fk p2_def)
  moreover have "only_at (fdt p2) S0"
  proof -
    from o have "only_at (close_fd (fdt p) r) (insert wr S0)" by (rule only_at_close_fd) auto
    then have "only_at (close_fd (close_fd (fdt p) r) wr) S0" by (rule only_at_close_fd) auto
    then show ?thesis by (simp add: p2_def)
  qed
  ultimately show ?thesis using ch cnt ipc lp
    by (intro exI [of _ pfd] exI [of _ p2] exI [of _ w2] exI [of _ kids1])
       (auto simp: p2_def)
qed

text \<open>
  The whole loop, from iteration \<open>i\<close> on: it ends, the descriptors outside \<open>S0\<close> refer to
  no channel afterwards, and, when no \<open>fork\<close> fails, every stage has its process and
  every external stage one more.
\<close>

lemma pipe_loop_inv:
  assumes ok: "\<forall>k. pipe_ok sy k"
    and pc: "1 \<le> pc" "pc \<le> 9" and ll: "length locs = pc + 1"
  shows "i \<le> pc + 1 \<Longrightarrow> length pfd = 9
    \<Longrightarrow> (i = 0 \<or> i = pc + 1 \<longrightarrow> only_at (fdt p) S0)
    \<Longrightarrow> (0 < i \<and> i \<le> pc \<longrightarrow> (\<exists>r wr. pfd ! (i - 1) = Some (r, wr)
                                      \<and> only_at (fdt p) (insert r (insert wr S0))))
    \<Longrightarrow> \<exists>p' w' kids'. pipe_loop sy pc locs args i pfd p w kids = Inr (p', w', kids')
          \<and> only_at (fdt p') S0 \<and> cwd p' = cwd p \<and> envp p' = envp p
          \<and> length (chans w') = length (chans w) + (pc - i)
          \<and> ((\<forall>n. fork_ok sy n) \<longrightarrow>
               nprocs w' = nprocs w + (pc + 1 - i)
                 + length (filter (\<lambda>l. ext_cell (cell_at args (nat (l + 1)))) (drop i locs))
               \<and> length kids' = length kids + (pc + 1 - i))"
proof (induction "pc + 1 - i" arbitrary: i pfd p w kids)
  case 0
  then have i: "i = pc + 1" by simp
  then have "pipe_loop sy pc locs args i pfd p w kids = Inr (p, w, kids)"
    by (subst pipe_loop.simps) simp
  then show ?case using i 0 ll by simp
next
  case (Suc n)
  then have i: "i \<le> pc" by simp
  have inv0: "i = 0 \<longrightarrow> only_at (fdt p) S0" using Suc.prems(3) by simp
  have inv1: "0 < i \<longrightarrow> (\<exists>r wr. pfd ! (i - 1) = Some (r, wr)
                             \<and> only_at (fdt p) (insert r (insert wr S0)))"
    using Suc.prems(4) i by simp
  from pipe_loop_step [OF ok pc i Suc.prems(2) inv0 inv1, where locs = locs and args = args
                         and w = w and kids = kids]
  obtain pfd1 p2 w2 kids1
    where step: "pipe_loop sy pc locs args i pfd p w kids
                   = pipe_loop sy pc locs args (Suc i) pfd1 p2 w2 kids1"
      and l1: "length pfd1 = 9" and c2: "cwd p2 = cwd p" "envp p2 = envp p"
      and e0: "i = pc \<longrightarrow> only_at (fdt p2) S0"
      and e1: "i < pc \<longrightarrow> (\<exists>r wr. pfd1 ! i = Some (r, wr)
                              \<and> only_at (fdt p2) (insert r (insert wr S0)))"
      and k2: "length (chans w2) = length (chans w) + (if i < pc then 1 else 0)"
      and n2: "(\<forall>n. fork_ok sy n) \<longrightarrow>
                 nprocs w2 = nprocs w + 1
                   + (if ext_cell (cell_at args (nat (locs ! i + 1))) then 1 else 0)
                 \<and> length kids1 = length kids + 1"
    by blast
  have m: "n = pc + 1 - Suc i" using Suc.hyps(2) by simp
  have a: "Suc i \<le> pc + 1" using i by simp
  have b: "Suc i = 0 \<or> Suc i = pc + 1 \<longrightarrow> only_at (fdt p2) S0" using e0 by simp
  have c: "0 < Suc i \<and> Suc i \<le> pc
             \<longrightarrow> (\<exists>r wr. pfd1 ! (Suc i - 1) = Some (r, wr)
                     \<and> only_at (fdt p2) (insert r (insert wr S0)))"
    using e1 by simp
  from Suc.hyps(1) [OF m a l1 b c, where w = w2 and kids = kids1]
  obtain p' w' kids'
    where r: "pipe_loop sy pc locs args (Suc i) pfd1 p2 w2 kids1 = Inr (p', w', kids')"
      and o: "only_at (fdt p') S0" and cp: "cwd p' = cwd p2" "envp p' = envp p2"
      and ch: "length (chans w') = length (chans w2) + (pc - Suc i)"
      and np: "(\<forall>n. fork_ok sy n) \<longrightarrow>
                 nprocs w' = nprocs w2 + (pc + 1 - Suc i)
                   + length (filter (\<lambda>l. ext_cell (cell_at args (nat (l + 1)))) (drop (Suc i) locs))
                 \<and> length kids' = length kids1 + (pc + 1 - Suc i)"
    by blast
  have d: "drop i locs = locs ! i # drop (Suc i) locs"
    using i ll by (simp add: Cons_nth_drop_Suc)
  from i obtain m where pcm: "pc = i + m" by (auto simp: le_iff_add)
  have "(\<forall>n. fork_ok sy n) \<longrightarrow>
          nprocs w' = nprocs w + (pc + 1 - i)
            + length (filter (\<lambda>l. ext_cell (cell_at args (nat (l + 1)))) (drop i locs))
          \<and> length kids' = length kids + (pc + 1 - i)"
    using np n2 unfolding d pcm by simp
  moreover have "length (chans w') = length (chans w) + (pc - i)" using ch k2 i by auto
  ultimately show ?case using step r o cp c2 by simp
qed

section \<open>Executing a line: one stage and several\<close>

lemma execute_pipeline:
  assumes ok: "\<forall>k. pipe_ok sy k"
    and cs: "c_strings args = Inr toks"
    and n1: "1 \<le> count_list toks ''|''" and n9: "count_list toks ''|'' \<le> 9"
    and cl: "only_at (fdt p) S0"
  shows "\<exists>p' w'. lsh_execute sy args p w = Inr (1, p', w')
           \<and> only_at (fdt p') S0 \<and> cwd p' = cwd p \<and> envp p' = envp p
           \<and> length (chans w') = length (chans w) + (length (stages_of toks) - 1)
           \<and> ((\<forall>n. fork_ok sy n) \<longrightarrow>
                nprocs w' = nprocs w + length (stages_of toks)
                  + length (filter external_stage (stages_of toks)))"
proof -
  from c_strings_ex [OF cs] obtain rest where args: "args = map Ptr toks @ Nul # rest" by blast
  define locs where "locs = - 1 # pipe_pos_from 0 toks"
  define args1 where "args1 = blank_pipes toks @ Nul # rest"
  define pc where "pc = count_list toks ''|''"
  have ne: "toks \<noteq> []" using n1 by auto
  then obtain t ts where toks: "toks = t # ts" by (cases toks) auto
  have c0: "cell_at args 0 = Inr (Some t)" by (simp add: args toks cell_at_def)
  have sc: "scan_pipes 0 [- 1] args = Inr (locs, args1)"
    using scan_pipes_spec [of "[- 1]" 0 toks "[]" rest] n9
    by (simp add: args locs_def args1_def length_pipe_pos_from)
  have ll: "length locs = pc + 1" by (simp add: locs_def pc_def length_pipe_pos_from)
  have pc1: "1 \<le> pc" "pc \<le> 9" using n1 n9 by (simp_all add: pc_def)
  from pipe_loop_inv [OF ok pc1 ll, where i = 0 and pfd = "replicate 9 None" and p = p
                        and ?S0.0 = S0 and args = args1 and w = w and kids = "[]"] cl
  obtain p' w' kids'
    where pl: "pipe_loop sy pc locs args1 0 (replicate 9 None) p w [] = Inr (p', w', kids')"
      and o: "only_at (fdt p') S0" and cp: "cwd p' = cwd p" "envp p' = envp p"
      and ch: "length (chans w') = length (chans w) + (pc - 0)"
      and np: "(\<forall>n. fork_ok sy n) \<longrightarrow>
                 nprocs w' = nprocs w + (pc + 1 - 0)
                   + length (filter (\<lambda>l. ext_cell (cell_at args1 (nat (l + 1)))) (drop 0 locs))"
    by auto
  have "lsh_execute sy args p w = Inr (1, p', w')"
    using c0 cs sc pl ll pc1 by (simp add: lsh_execute_def Let_def)
  moreover have "length (filter (\<lambda>l. ext_cell (cell_at args1 (nat (l + 1)))) locs)
                   = length (filter external_stage (stages_of toks))"
  proof -
    have "length (filter (\<lambda>l. ext_cell (cell_at args1 (nat (l + 1)))) locs)
            = length (filter ext_cell (map (\<lambda>l. cell_at args1 (nat (l + 1))) locs))"
      by (simp add: filter_map comp_def)
    also have "map (\<lambda>l. cell_at args1 (nat (l + 1))) locs = map head_cell (stages_of toks)"
      unfolding locs_def args1_def by (rule stage_heads_all)
    also have "length (filter ext_cell (map head_cell (stages_of toks)))
                 = length (filter external_stage (stages_of toks))"
      by (simp add: filter_map comp_def ext_cell_head)
    finally show ?thesis .
  qed
  moreover have "length (stages_of toks) = pc + 1" by (simp add: length_stages_of pc_def)
  ultimately show ?thesis using o cp np ch by simp
qed

lemma execute_single:
  assumes cs: "c_strings args = Inr (name # rest)" and np: "''|'' \<notin> set (name # rest)"
    and fk: "fork_ok sy (nprocs w)"
  shows "lsh_execute sy args p w
           = (case single_child sy args p (w\<lparr>nprocs := Suc (nprocs w)\<rparr>) of
                (status, w1) \<Rightarrow> Inr (WEXITSTATUS status, p, w1))"
proof -
  from c_strings_ex [OF cs] obtain r where args: "args = map Ptr (name # rest) @ Nul # r" by blast
  have c0: "cell_at args 0 = Inr (Some name)" by (simp add: args cell_at_def)
  have "scan_pipes 0 [- 1] args
          = Inr ([- 1] @ pipe_pos_from 0 (name # rest), blank_pipes (name # rest) @ Nul # r)"
    using scan_pipes_spec [of "[- 1]" 0 "name # rest" "[]" r] np
    by (simp add: args pipe_pos_from_none del: pipe_pos_from.simps)
  then have sc: "scan_pipes 0 [- 1] args = Inr ([- 1], args)"
    using np by (simp add: pipe_pos_from_none blank_pipes_none args
                      del: pipe_pos_from.simps)
  show ?thesis using c0 cs sc fk by (simp add: lsh_execute_def)
qed

text \<open>An eleventh separator is written past the end of \<open>pipe_locate\<close>.\<close>

lemma execute_too_many_pipes:
  assumes cs: "c_strings args = Inr toks" and n: "10 \<le> count_list toks ''|''"
  shows "lsh_execute sy args p w = Inl (OutOfBounds, w)"
proof -
  from c_strings_ex [OF cs] obtain rest where args: "args = map Ptr toks @ Nul # rest" by blast
  have "toks \<noteq> []" using n by auto
  then obtain t ts where toks: "toks = t # ts" by (cases toks) auto
  have c0: "cell_at args 0 = Inr (Some t)" by (simp add: args toks cell_at_def)
  have "scan_pipes 0 [- 1] args = Inl OutOfBounds"
    using scan_pipes_overflow [of "[- 1]" 0 toks "[]" rest] n
    by (simp add: args length_pipe_pos_from)
  then show ?thesis using c0 cs by (simp add: lsh_execute_def)
qed

lemma split_store_shape:
  "position < bufsize \<Longrightarrow> length block = bufsize
   \<Longrightarrow> \<exists>junk. split_store sy toks position bufsize block
                = take position block @ map Ptr toks @ Nul # junk"
proof (induction toks arbitrary: position bufsize block)
  case Nil
  then show ?case by (simp add: upd_conv_take_nth_drop)
next
  case (Cons t ts)
  define b1 where "b1 = block[position := Ptr t]"
  have tk: "take (position + 1) (b1 @ ext) = take position block @ [Ptr t]" for ext
    using Cons.prems by (simp add: b1_def take_Suc_conv_app_nth)
  show ?case
  proof (cases "bufsize \<le> position + 1")
    case True
    define b2 where "b2 = b1 @ map (malloc_fill sy) [bufsize ..< bufsize + LSH_TOK_BUFSIZE]"
    have "\<exists>junk. split_store sy ts (position + 1) (bufsize + LSH_TOK_BUFSIZE) b2
                   = take (position + 1) b2 @ map Ptr ts @ Nul # junk"
      using Cons.prems True by (intro Cons.IH) (auto simp: LSH_TOK_BUFSIZE_def b2_def b1_def)
    then obtain junk
      where "split_store sy ts (position + 1) (bufsize + LSH_TOK_BUFSIZE) b2
               = take (position + 1) b2 @ map Ptr ts @ Nul # junk" by blast
    then have "split_store sy ts (position + 1) (bufsize + LSH_TOK_BUFSIZE) b2
                 = take position block @ map Ptr (t # ts) @ Nul # junk"
      unfolding b2_def tk by simp
    moreover have "split_store sy (t # ts) position bufsize block
                     = split_store sy ts (position + 1) (bufsize + LSH_TOK_BUFSIZE) b2"
      using True by (simp add: b2_def b1_def)
    ultimately show ?thesis by metis
  next
    case False
    have "\<exists>junk. split_store sy ts (position + 1) bufsize b1
                   = take (position + 1) b1 @ map Ptr ts @ Nul # junk"
      using Cons.prems False by (intro Cons.IH) (auto simp: b1_def)
    then obtain junk
      where "split_store sy ts (position + 1) bufsize b1
               = take (position + 1) (b1 @ []) @ map Ptr ts @ Nul # junk" by auto
    then have "split_store sy ts (position + 1) bufsize b1
                 = take position block @ map Ptr (t # ts) @ Nul # junk"
      unfolding tk by simp
    moreover have "split_store sy (t # ts) position bufsize block
                     = split_store sy ts (position + 1) bufsize b1"
      using False by (simp add: b1_def)
    ultimately show ?thesis by metis
  qed
qed

lemma split_line_tokens: "c_strings (lsh_split_line sy line) = Inr (strtok_all [] line)"
proof -
  have "\<exists>junk. lsh_split_line sy line = map Ptr (strtok_all [] line) @ Nul # junk"
    using split_store_shape [of 0 LSH_TOK_BUFSIZE "map (malloc_fill sy) [0 ..< LSH_TOK_BUFSIZE]"
                               sy "strtok_all [] line"]
    by (simp add: lsh_split_line_def LSH_TOK_BUFSIZE_def)
  then show ?thesis using c_strings_append by auto
qed

lemma read_line_newline:
  "CHR 0x0A \<notin> set line \<Longrightarrow> lsh_read_line (line @ CHR 0x0A # inp) = Some (line, inp)"
  by (induction line) auto

lemma launch_builtin_Some:
  assumes "name \<in> set builtin_str"
  shows "\<exists>h. launch_builtin 0 name = Some h
           \<and> (\<forall>sy a p w. same_counts w (hres_world (h sy a p w)))"
  using assms same_counts_handlers same_counts_sort
  by (auto simp: launch_builtin_0 builtin_str_def)

lemma launch_builtin_None: "name \<notin> set builtin_str \<Longrightarrow> launch_builtin 0 name = None"
  by (simp add: launch_builtin_0 builtin_str_def)

lemma nprocs_put_out [simp]: "nprocs (put_out p s w) = nprocs w"
  using same_counts_put_fd [of w 1 p s] by (simp add: same_counts_def put_out_def)

lemma execute_exit:
  assumes cs: "c_strings args = Inr [''exit'']" and fk: "fork_ok sy (nprocs w)"
  shows "lsh_execute sy args p w = Inr (0, p, w\<lparr>nprocs := Suc (nprocs w)\<rparr>)"
proof -
  have c0: "cell_at args 0 = Inr (Some ''exit'')" using cell_at_c_strings [OF cs, of 0] by simp
  have "lsh_launch sy args p (w\<lparr>nprocs := Suc (nprocs w)\<rparr>)
          = Inr (0, args, p, w\<lparr>nprocs := Suc (nprocs w)\<rparr>)"
    using c0 by (simp add: lsh_launch_def launch_builtin_0 lsh_exit_def)
  then show ?thesis
    using execute_single [OF cs _ fk, of p] by (simp add: single_child_def WEXITSTATUS_def)
qed

section \<open>The claims about execution\<close>

text \<open>
  Claim C1, amended. For a single command without pipe whose first token names a built-in,
  \<open>lsh_execute\<close> creates one process (when \<open>fork\<close> succeeds) and the handler runs in that
  child: the caller gets the handler's return value as the child's exit status (0 when
  the child faulted), the child's process state, its working directory included, is
  dropped, and the calling process keeps its own state.
\<close>

theorem single_builtin_runs_in_child:
  assumes "c_strings args = Inr (name # rest)" and "name \<in> set builtin_str"
    and "''|'' \<notin> set rest" and "fork_ok sy (nprocs w)"
  shows "\<exists>h. launch_builtin 0 name = Some h
           \<and> lsh_execute sy args p w
               = (case h sy args p (w\<lparr>nprocs := Suc (nprocs w)\<rparr>) of
                    Inl (f, w1) \<Rightarrow> Inr (0, p, w1)
                  | Inr (ret, a, q, w1) \<Rightarrow> Inr (ret mod 256, p, w1))
           \<and> nprocs (exec_world (lsh_execute sy args p w)) = Suc (nprocs w)
           \<and> exec_proc (lsh_execute sy args p w) = Some p"
proof -
  let ?w1 = "w\<lparr>nprocs := Suc (nprocs w)\<rparr>"
  from launch_builtin_Some [OF assms(2)] obtain h
    where h: "launch_builtin 0 name = Some h"
      and sc: "\<And>sy a p w. same_counts w (hres_world (h sy a p w))" by blast
  have np: "''|'' \<notin> set (name # rest)" using assms(2,3) by (auto simp: builtin_str_def)
  have c0: "cell_at args 0 = Inr (Some name)" using cell_at_c_strings [OF assms(1), of 0] by simp
  have l: "lsh_launch sy args p ?w1 = h sy args p ?w1" using c0 h by (simp add: lsh_launch_def)
  have e: "lsh_execute sy args p w
             = (case h sy args p ?w1 of
                  Inl (f, w1) \<Rightarrow> Inr (0, p, w1)
                | Inr (ret, a, q, w1) \<Rightarrow> Inr (ret mod 256, p, w1))"
    unfolding execute_single [OF assms(1) np assms(4)] single_child_def l
    by (simp add: WEXITSTATUS_def split: sum.splits prod.splits)
  have "nprocs (hres_world (h sy args p ?w1)) = Suc (nprocs w)"
    using sc [of ?w1 sy args p] by (simp add: same_counts_def)
  then have "nprocs (exec_world (lsh_execute sy args p w)) = Suc (nprocs w)"
    unfolding e by (cases "h sy args p ?w1" rule: hres_world.cases) simp_all
  moreover have "exec_proc (lsh_execute sy args p w) = Some p"
    unfolding e by (cases "h sy args p ?w1" rule: hres_world.cases) simp_all
  ultimately show ?thesis using h e by blast
qed

theorem single_builtin_runs_in_child_witness:
  "c_strings [Ptr ''pwd'', Nul] = Inr [''pwd''] \<and> ''pwd'' \<in> set builtin_str
   \<and> ''|'' \<notin> set ([] :: string list) \<and> fork_ok ex_sys (nprocs ex_world)
   \<and> (\<exists>h. launch_builtin 0 ''pwd'' = Some h
         \<and> lsh_execute ex_sys [Ptr ''pwd'', Nul] ex_proc ex_world
             = (case h ex_sys [Ptr ''pwd'', Nul] ex_proc (ex_world\<lparr>nprocs := Suc (nprocs ex_world)\<rparr>) of
                  Inl (f, w1) \<Rightarrow> Inr (0, ex_proc, w1)
                | Inr (ret, a, q, w1) \<Rightarrow> Inr (ret mod 256, ex_proc, w1))
         \<and> nprocs (exec_world (lsh_execute ex_sys [Ptr ''pwd'', Nul] ex_proc ex_world))
             = Suc (nprocs ex_world)
         \<and> exec_proc (lsh_execute ex_sys [Ptr ''pwd'', Nul] ex_proc ex_world) = Some ex_proc)"
proof -
  have h: "c_strings [Ptr ''pwd'', Nul] = Inr (''pwd'' # [])" "''pwd'' \<in> set builtin_str"
          "''|'' \<notin> set ([] :: string list)" "fork_ok ex_sys (nprocs ex_world)"
    by (simp_all add: builtin_str_def ex_sys_def)
  from single_builtin_runs_in_child [OF h, of ex_proc] h show ?thesis by simp
qed

text \<open>
  Claim C1 as stated fails: \<open>cd /tmp\<close> creates a process, and the shell is in \<open>/home\<close>
  afterwards as before.
\<close>

theorem single_builtin_forks_counterexample:
  "nprocs (exec_world (lsh_execute ex_sys (lsh_split_line ex_sys ''cd /tmp'') ex_proc ex_world)) = 1
   \<and> map_option cwd (exec_proc (lsh_execute ex_sys (lsh_split_line ex_sys ''cd /tmp'')
                                   ex_proc ex_world)) = Some ''/home''"
  by code_simp

text \<open>
  Claim C2, amended. For a single command without pipe whose first token is not the name
  of a built-in, two processes are created when both \<open>fork\<close> calls succeed: the child of
  \<open>lsh_execute\<close> and, inside it, the child of \<open>lsh_launch\<close>, whose image \<open>execvp\<close> replaces
  by the program. \<open>lsh_execute\<close> returns 1 whatever status the program ends with.
\<close>

theorem single_external_forks_twice:
  assumes "c_strings args = Inr (name # rest)" and "name \<notin> set builtin_str"
    and "''|'' \<notin> set (name # rest)"
    and "fork_ok sy (nprocs w)" and "fork_ok sy (Suc (nprocs w))"
  shows "lsh_execute sy args p w
           = Inr (1, p, (case execvp sy name args p (w\<lparr>nprocs := Suc (Suc (nprocs w))\<rparr>) of
                           Inl e \<Rightarrow> put_err p (perror_lsh e) (w\<lparr>nprocs := Suc (Suc (nprocs w))\<rparr>)
                         | Inr (status, w1) \<Rightarrow> w1))
         \<and> nprocs (exec_world (lsh_execute sy args p w)) = nprocs w + 2"
proof -
  let ?w1 = "w\<lparr>nprocs := Suc (nprocs w)\<rparr>"
  let ?w2 = "w\<lparr>nprocs := Suc (Suc (nprocs w))\<rparr>"
  have c0: "cell_at args 0 = Inr (Some name)" using cell_at_c_strings [OF assms(1), of 0] by simp
  have w12: "?w1\<lparr>nprocs := Suc (nprocs ?w1)\<rparr> = ?w2" by simp
  have l: "lsh_launch sy args p ?w1 = Inr (1, args, p, snd (launch_child sy name args p ?w2))"
    using c0 launch_builtin_None [OF assms(2)] assms(5)
    by (simp add: lsh_launch_def w12 split: prod.splits)
  have e: "lsh_execute sy args p w = Inr (1, p, snd (launch_child sy name args p ?w2))"
    unfolding execute_single [OF assms(1,3,4)] single_child_def l
    by (simp add: WEXITSTATUS_def)
  have s: "snd (launch_child sy name args p ?w2)
             = (case execvp sy name args p ?w2 of
                  Inl e \<Rightarrow> put_err p (perror_lsh e) ?w2
                | Inr (status, w1) \<Rightarrow> w1)"
    by (simp add: launch_child_def split: sum.splits prod.splits)
  have "nprocs (snd (launch_child sy name args p ?w2)) = nprocs w + 2"
    using same_counts_launch_child [of ?w2 sy name args p] by (simp add: same_counts_def)
  then show ?thesis using e s by simp
qed

theorem single_external_forks_twice_witness:
  "c_strings [Ptr ''true'', Nul] = Inr [''true''] \<and> ''true'' \<notin> set builtin_str
   \<and> ''|'' \<notin> set [''true''] \<and> fork_ok ex_sys (nprocs ex_world)
   \<and> fork_ok ex_sys (Suc (nprocs ex_world))
   \<and> lsh_execute ex_sys [Ptr ''true'', Nul] ex_proc ex_world
       = Inr (1, ex_proc,
              (case execvp ex_sys ''true'' [Ptr ''true'', Nul] ex_proc
                      (ex_world\<lparr>nprocs := Suc (Suc (nprocs ex_world))\<rparr>) of
                 Inl e \<Rightarrow> put_err ex_proc (perror_lsh e)
                            (ex_world\<lparr>nprocs := Suc (Suc (nprocs ex_world))\<rparr>)
               | Inr (status, w1) \<Rightarrow> w1))
   \<and> nprocs (exec_world (lsh_execute ex_sys [Ptr ''true'', Nul] ex_proc ex_world))
       = nprocs ex_world + 2"
proof -
  have h: "c_strings [Ptr ''true'', Nul] = Inr (''true'' # [])" "''true'' \<notin> set builtin_str"
          "''|'' \<notin> set (''true'' # [])" "fork_ok ex_sys (nprocs ex_world)"
          "fork_ok ex_sys (Suc (nprocs ex_world))"
    by (simp_all add: builtin_str_def ex_sys_def)
  from single_external_forks_twice [OF h, of ex_proc] h show ?thesis by blast
qed

text \<open>
  Claim C2 as stated fails: the program \<open>true\<close> ends with status 0, and \<open>lsh_execute\<close>
  returns 1 after two processes were created.
\<close>

theorem single_external_status_counterexample:
  "exec_status (lsh_execute ex_sys (lsh_split_line ex_sys ''true'') ex_proc ex_world) = Some 1
   \<and> nprocs (exec_world (lsh_execute ex_sys (lsh_split_line ex_sys ''true'') ex_proc ex_world)) = 2"
  by code_simp

text \<open>
  Claim C4, amended. For a pipeline of N stages, N from 2 to 10, with every \<open>fork\<close> and
  \<open>pipe\<close> succeeding, \<open>lsh_execute\<close> creates N - 1 channels and N stage processes, and
  every stage with an external command creates one process more; when the parent begins
  to wait, none of its descriptors refers to an end of a channel.
\<close>

theorem pipeline_processes_and_channels:
  assumes "\<forall>n. fork_ok sy n" and "\<forall>k. pipe_ok sy k" and "c_strings args = Inr toks"
    and "2 \<le> length (stages_of toks)" and "length (stages_of toks) \<le> 10"
    and "chan_fds (fdt p) = []"
  shows "\<exists>p' w'. lsh_execute sy args p w = Inr (1, p', w') \<and> chan_fds (fdt p') = []
           \<and> nprocs w' = nprocs w + length (stages_of toks)
                + length (filter external_stage (stages_of toks))
           \<and> length (chans w') = length (chans w) + length (stages_of toks) - 1"
proof -
  have n: "1 \<le> count_list toks ''|''" "count_list toks ''|'' \<le> 9"
    using assms(4,5) by (simp_all add: length_stages_of)
  have "only_at (fdt p) {}" using assms(6) by (simp add: only_at_chan_fds)
  from execute_pipeline [OF assms(2,3) n this, where w = w] assms(1)
  show ?thesis by (auto simp: only_at_chan_fds length_stages_of)
qed

theorem pipeline_processes_and_channels_witness:
  "(\<forall>n. fork_ok ex_sys n) \<and> (\<forall>k. pipe_ok ex_sys k)
   \<and> c_strings [Ptr ''ls'', Ptr ''|'', Ptr ''sort'', Nul] = Inr [''ls'', ''|'', ''sort'']
   \<and> 2 \<le> length (stages_of [''ls'', ''|'', ''sort''])
   \<and> length (stages_of [''ls'', ''|'', ''sort'']) \<le> 10
   \<and> chan_fds (fdt ex_proc) = []
   \<and> (\<exists>p' w'. lsh_execute ex_sys [Ptr ''ls'', Ptr ''|'', Ptr ''sort'', Nul] ex_proc ex_world
                   = Inr (1, p', w')
          \<and> chan_fds (fdt p') = []
          \<and> nprocs w' = nprocs ex_world + length (stages_of [''ls'', ''|'', ''sort''])
               + length (filter external_stage (stages_of [''ls'', ''|'', ''sort'']))
          \<and> length (chans w')
               = length (chans ex_world) + length (stages_of [''ls'', ''|'', ''sort'']) - 1)"
proof -
  have h: "\<forall>n. fork_ok ex_sys n" "\<forall>k. pipe_ok ex_sys k"
          "c_strings [Ptr ''ls'', Ptr ''|'', Ptr ''sort'', Nul] = Inr [''ls'', ''|'', ''sort'']"
          "2 \<le> length (stages_of [''ls'', ''|'', ''sort''])"
          "length (stages_of [''ls'', ''|'', ''sort'']) \<le> 10"
          "chan_fds (fdt ex_proc) = []"
    by (simp_all add: ex_sys_def ex_proc_def chan_fds_def)
  from pipeline_processes_and_channels [OF h, of ex_world] h show ?thesis by blast
qed

text \<open>
  Claim C4 as stated fails: the two stages of \<open>ls | ls\<close> make four processes.
\<close>

theorem pipeline_extra_processes_counterexample:
  "length (stages_of (strtok_all [] ''ls | ls'')) = 2
   \<and> nprocs (exec_world (lsh_execute ex_sys (lsh_split_line ex_sys ''ls | ls'') ex_proc ex_world)) = 4"
  by code_simp

text \<open>
  Claim C5, amended. For a token sequence with an empty stage (a leading, a trailing or
  a doubled separator) of 2 to 10 stages, with every \<open>fork\<close> and \<open>pipe\<close> succeeding,
  \<open>lsh_execute\<close> does not abort: it creates all the channels and a process for every
  stage, the empty ones too, and returns 1.
\<close>

theorem empty_stage_is_launched:
  assumes "\<forall>n. fork_ok sy n" and "\<forall>k. pipe_ok sy k" and "c_strings args = Inr toks"
    and "[] \<in> set (stages_of toks)"
    and "2 \<le> length (stages_of toks)" and "length (stages_of toks) \<le> 10"
  shows "\<exists>p' w'. lsh_execute sy args p w = Inr (1, p', w')
           \<and> nprocs w' = nprocs w + length (stages_of toks)
                + length (filter external_stage (stages_of toks))
           \<and> length (chans w') = length (chans w) + length (stages_of toks) - 1"
proof -
  have n: "1 \<le> count_list toks ''|''" "count_list toks ''|'' \<le> 9"
    using assms(5,6) by (simp_all add: length_stages_of)
  have "only_at (fdt p) UNIV" by (simp add: only_at_def)
  from execute_pipeline [OF assms(2,3) n this, where w = w] assms(1)
  show ?thesis by (auto simp: length_stages_of)
qed

theorem empty_stage_is_launched_witness:
  "(\<forall>n. fork_ok ex_sys n) \<and> (\<forall>k. pipe_ok ex_sys k)
   \<and> c_strings [Ptr ''ls'', Ptr ''|'', Ptr ''|'', Ptr ''ls'', Nul] = Inr [''ls'', ''|'', ''|'', ''ls'']
   \<and> [] \<in> set (stages_of [''ls'', ''|'', ''|'', ''ls''])
   \<and> 2 \<le> length (stages_of [''ls'', ''|'', ''|'', ''ls''])
   \<and> length (stages_of [''ls'', ''|'', ''|'', ''ls'']) \<le> 10
   \<and> (\<exists>p' w'. lsh_execute ex_sys [Ptr ''ls'', Ptr ''|'', Ptr ''|'', Ptr ''ls'', Nul] ex_proc ex_world
                   = Inr (1, p', w')
          \<and> nprocs w' = nprocs ex_world + length (stages_of [''ls'', ''|'', ''|'', ''ls''])
               + length (filter external_stage (stages_of [''ls'', ''|'', ''|'', ''ls'']))
          \<and> length (chans w')
               = length (chans ex_world) + length (stages_of [''ls'', ''|'', ''|'', ''ls'']) - 1)"
proof -
  have h: "\<forall>n. fork_ok ex_sys n" "\<forall>k. pipe_ok ex_sys k"
          "c_strings [Ptr ''ls'', Ptr ''|'', Ptr ''|'', Ptr ''ls'', Nul] = Inr [''ls'', ''|'', ''|'', ''ls'']"
          "[] \<in> set (stages_of [''ls'', ''|'', ''|'', ''ls''])"
          "2 \<le> length (stages_of [''ls'', ''|'', ''|'', ''ls''])"
          "length (stages_of [''ls'', ''|'', ''|'', ''ls'']) \<le> 10"
    by (simp_all add: ex_sys_def)
  from empty_stage_is_launched [OF h, of ex_proc ex_world] h show ?thesis by blast
qed

text \<open>
  Claim C5 as stated fails: for \<open>ls | | ls\<close> nothing is written to standard error,
  five processes are created, and the last stage prints its output.
\<close>

theorem empty_stage_no_error_counterexample:
  "[] \<in> set (stages_of (strtok_all [] ''ls | | ls''))
   \<and> term_err (exec_world (lsh_execute ex_sys (lsh_split_line ex_sys ''ls | | ls'') ex_proc ex_world)) = []
   \<and> nprocs (exec_world (lsh_execute ex_sys (lsh_split_line ex_sys ''ls | | ls'') ex_proc ex_world)) = 5
   \<and> term_out (exec_world (lsh_execute ex_sys (lsh_split_line ex_sys ''ls | | ls'') ex_proc ex_world))
       = ''b\<newline>a\<newline>''"
  by code_simp

text \<open>
  Claim C6. \<open>exit\<close> alone makes \<open>lsh_execute\<close> return 0 (when \<open>fork\<close> succeeds), which
  ends \<open>lsh_loop\<close> with the rest of the input unread. A line that is a pipeline of 2 to
  10 stages, whatever its stages are and do, \<open>exit\<close> included, makes \<open>lsh_execute\<close> return
  1 (when every \<open>pipe\<close> succeeds), and \<open>lsh_loop\<close> goes on with the next line.
\<close>

theorem exit_alone_ends_loop_piped_exit_does_not:
  "(c_strings args = Inr [''exit''] \<and> fork_ok sy (nprocs w) \<longrightarrow>
      lsh_execute sy args p w = Inr (0, p, w\<lparr>nprocs := Suc (nprocs w)\<rparr>)
      \<and> lsh_loop sy (''exit\<newline>'' @ inp) p w
          = Inr (EXIT_SUCCESS, inp, (put_out p ''shsh!% '' w)\<lparr>nprocs := Suc (nprocs w)\<rparr>))
   \<and> ((\<forall>k. pipe_ok sy0 k) \<and> CHR 0x0A \<notin> set line
       \<and> 2 \<le> length (stages_of (strtok_all [] line))
       \<and> length (stages_of (strtok_all [] line)) \<le> 10 \<longrightarrow>
      (\<exists>p' w'. lsh_execute sy0 (lsh_split_line sy0 line) p0 (put_out p0 ''shsh!% '' w0)
                  = Inr (1, p', w')
         \<and> lsh_loop sy0 (line @ ''\<newline>'' @ inp0) p0 w0 = lsh_loop sy0 inp0 p' w'))"
proof (intro conjI impI)
  assume a: "c_strings args = Inr [''exit''] \<and> fork_ok sy (nprocs w)"
  then show "lsh_execute sy args p w = Inr (0, p, w\<lparr>nprocs := Suc (nprocs w)\<rparr>)"
    by (simp add: execute_exit)
  have rl: "lsh_read_line (''exit\<newline>'' @ inp) = Some (''exit'', inp)"
    using read_line_newline [of "''exit''" inp] by simp
  have "c_strings (lsh_split_line sy ''exit'') = Inr [''exit'']"
    unfolding split_line_tokens by (simp add: LSH_TOK_DELIM_def)
  then have "lsh_execute sy (lsh_split_line sy ''exit'') p (put_out p ''shsh!% '' w)
               = Inr (0, p, (put_out p ''shsh!% '' w)\<lparr>nprocs := Suc (nprocs w)\<rparr>)"
    using a execute_exit [where args = "lsh_split_line sy ''exit''" and sy = sy
                            and w = "put_out p ''shsh!% '' w" and p = p] by simp
  then show "lsh_loop sy (''exit\<newline>'' @ inp) p w
          = Inr (EXIT_SUCCESS, inp, (put_out p ''shsh!% '' w)\<lparr>nprocs := Suc (nprocs w)\<rparr>)"
    using rl by (subst lsh_loop.simps) simp
next
  assume a: "(\<forall>k. pipe_ok sy0 k) \<and> CHR 0x0A \<notin> set line
       \<and> 2 \<le> length (stages_of (strtok_all [] line))
       \<and> length (stages_of (strtok_all [] line)) \<le> 10"
  let ?toks = "strtok_all [] line"
  have n: "1 \<le> count_list ?toks ''|''" "count_list ?toks ''|'' \<le> 9"
    using a by (simp_all add: length_stages_of)
  have u: "only_at (fdt p0) UNIV" by (simp add: only_at_def)
  from a have ok: "\<forall>k. pipe_ok sy0 k" by simp
  from execute_pipeline [OF ok split_line_tokens n u, where w = "put_out p0 ''shsh!% '' w0"]
  obtain p' w'
    where e: "lsh_execute sy0 (lsh_split_line sy0 line) p0 (put_out p0 ''shsh!% '' w0)
                = Inr (1, p', w')" by blast
  have rl: "lsh_read_line (line @ ''\<newline>'' @ inp0) = Some (line, inp0)"
    using a read_line_newline [of line inp0] by simp
  have "lsh_loop sy0 (line @ ''\<newline>'' @ inp0) p0 w0 = lsh_loop sy0 inp0 p' w'"
    using rl e by (subst lsh_loop.simps) simp
  then show "\<exists>p' w'. lsh_execute sy0 (lsh_split_line sy0 line) p0 (put_out p0 ''shsh!% '' w0)
                  = Inr (1, p', w')
         \<and> lsh_loop sy0 (line @ ''\<newline>'' @ inp0) p0 w0 = lsh_loop sy0 inp0 p' w'"
    using e by blast
qed

theorem exit_alone_ends_loop_piped_exit_does_not_witness:
  "c_strings [Ptr ''exit'', Nul] = Inr [''exit''] \<and> fork_ok ex_sys (nprocs ex_world)
   \<and> lsh_execute ex_sys [Ptr ''exit'', Nul] ex_proc ex_world
       = Inr (0, ex_proc, ex_world\<lparr>nprocs := Suc (nprocs ex_world)\<rparr>)
   \<and> lsh_loop ex_sys (''exit\<newline>'' @ ''help\<newline>'') ex_proc ex_world
       = Inr (EXIT_SUCCESS, ''help\<newline>'',
              (put_out ex_proc ''shsh!% '' ex_world)\<lparr>nprocs := Suc (nprocs ex_world)\<rparr>)
   \<and> (\<forall>k. pipe_ok ex_sys k) \<and> CHR 0x0A \<notin> set ''exit | exit''
   \<and> 2 \<le> length (stages_of (strtok_all [] ''exit | exit''))
   \<and> length (stages_of (strtok_all [] ''exit | exit'')) \<le> 10
   \<and> (\<exists>p' w'. lsh_execute ex_sys (lsh_split_line ex_sys ''exit | exit'') ex_proc
                    (put_out ex_proc ''shsh!% '' ex_world) = Inr (1, p', w')
         \<and> lsh_loop ex_sys (''exit | exit'' @ ''\<newline>'' @ ''help\<newline>'') ex_proc ex_world
             = lsh_loop ex_sys ''help\<newline>'' p' w')"
proof -
  have h1: "c_strings [Ptr ''exit'', Nul] = Inr [''exit''] \<and> fork_ok ex_sys (nprocs ex_world)"
    by (simp add: ex_sys_def)
  have h2: "(\<forall>k. pipe_ok ex_sys k) \<and> CHR 0x0A \<notin> set ''exit | exit''
       \<and> 2 \<le> length (stages_of (strtok_all [] ''exit | exit''))
       \<and> length (stages_of (strtok_all [] ''exit | exit'')) \<le> 10"
    by (simp add: ex_sys_def LSH_TOK_DELIM_def)
  note t = exit_alone_ends_loop_piped_exit_does_not
             [where args = "[Ptr ''exit'', Nul]" and sy = ex_sys and w = ex_world and p = ex_proc
                and inp = "''help\<newline>''" and ?sy0.0 = ex_sys and line = "''exit | exit''"
                and ?p0.0 = ex_proc and ?w0.0 = ex_world and ?inp0.0 = "''help\<newline>''"]
  from t h1 have c1: "lsh_execute ex_sys [Ptr ''exit'', Nul] ex_proc ex_world
       = Inr (0, ex_proc, ex_world\<lparr>nprocs := Suc (nprocs ex_world)\<rparr>)
     \<and> lsh_loop ex_sys (''exit\<newline>'' @ ''help\<newline>'') ex_proc ex_world
       = Inr (EXIT_SUCCESS, ''help\<newline>'',
              (put_out ex_proc ''shsh!% '' ex_world)\<lparr>nprocs := Suc (nprocs ex_world)\<rparr>)"
    by blast
  from t h2 have c2: "\<exists>p' w'. lsh_execute ex_sys (lsh_split_line ex_sys ''exit | exit'') ex_proc
                    (put_out ex_proc ''shsh!% '' ex_world) = Inr (1, p', w')
         \<and> lsh_loop ex_sys (''exit | exit'' @ ''\<newline>'' @ ''help\<newline>'') ex_proc ex_world
             = lsh_loop ex_sys ''help\<newline>'' p' w'"
    by blast
  show ?thesis using h1 h2 c1 c2 by blast
qed

end
